theory Spec2Isabelle
  imports Complex_Main "HOL-Library.Sublist"
begin

section \<open>Python values used by \<open>pyrts/model.py\<close>\<close>

text \<open>
  The exceptions the module can raise. An \<open>assert\<close> that fails raises
  \<open>AssertionError\<close> with the message of the statement; indexing past the end of a
  list or of an array axis raises \<open>IndexError\<close>; \<open>int\<close> and \<open>float\<close> of a token that
  is no literal, and a negative dimension given to \<open>numpy.zeros\<close>, raise \<open>ValueError\<close>;
  arithmetic, comparison or item assignment on \<open>None\<close> raises \<open>TypeError\<close>.
  Assertions are taken as enabled (the interpreter is not run with \<open>-O\<close>).

  A method of the class mutates the object in place. It is modelled by a function from the
  object to \<open>Inr\<close> of the object it leaves when it returns, or \<open>Inl (e, obj)\<close> when it
  raises \<open>e\<close>, with \<open>obj\<close> the object as it stands at the raise.
\<close>

datatype error = AssertionError string | IndexError | ValueError | TypeError

text \<open>
  \<open>str.split()\<close> without arguments: the maximal runs of characters that are not
  white space. Characters are the code points below 256 here, and the white space is
  what \<open>str.isspace\<close> accepts among them: tab, line feed, vertical tab, form feed,
  carriage return, the four separators \<open>0x1C\<close> to \<open>0x1F\<close>, the blank, the next-line
  control \<open>0x85\<close> and the no-break space \<open>0xA0\<close>.
\<close>

definition isspace :: "char \<Rightarrow> bool" where
  "isspace c = (c \<in> {CHR 0x09, CHR 0x0A, CHR 0x0B, CHR 0x0C, CHR 0x0D,
                        CHR 0x1C, CHR 0x1D, CHR 0x1E, CHR 0x1F, CHR '' '',
                        CHR 0x85, CHR 0xA0})"

fun split_from :: "string \<Rightarrow> string \<Rightarrow> string list" where
  "split_from w [] = (if w = [] then [] else [w])"
| "split_from w (c # cs) =
     (if isspace c then (if w = [] then split_from [] cs else w # split_from [] cs)
      else split_from (w @ [c]) cs)"

definition str_split :: "string \<Rightarrow> string list" where
  "str_split s = split_from [] s"

text \<open>\<open>s.count('1')\<close>: the number of occurrences of the character in the string.\<close>

definition str_count :: "string \<Rightarrow> char \<Rightarrow> nat" where
  "str_count s c = count_list s c"

subsection \<open>The four-dimensional array\<close>

text \<open>
  \<open>numpy.zeros((n0, n1, n2, n3))\<close> is a dense array of zeros, here a list of lists
  nested four deep. \<open>a[i, j, k, l] = v\<close> with an index outside its axis raises
  \<open>IndexError\<close> (\<open>None\<close> below); the parser only ever indexes with natural numbers.
\<close>

type_synonym 'v ndarray = "'v list list list list"

definition zeros :: "nat \<Rightarrow> nat \<Rightarrow> nat \<Rightarrow> nat \<Rightarrow> ('v::zero) ndarray" where
  "zeros n0 n1 n2 n3 = replicate n0 (replicate n1 (replicate n2 (replicate n3 0)))"

definition upd :: "nat \<Rightarrow> ('a \<Rightarrow> 'a option) \<Rightarrow> 'a list \<Rightarrow> 'a list option" where
  "upd i f xs = (if i < length xs then map_option (\<lambda>y. xs[i := y]) (f (xs ! i)) else None)"

definition setitem :: "'v ndarray \<Rightarrow> nat \<Rightarrow> nat \<Rightarrow> nat \<Rightarrow> nat \<Rightarrow> 'v \<Rightarrow> 'v ndarray option" where
  "setitem a i j k l v = upd i (upd j (upd k (upd l (\<lambda>_. Some v)))) a"

definition getitem :: "'v ndarray \<Rightarrow> nat \<Rightarrow> nat \<Rightarrow> nat \<Rightarrow> nat \<Rightarrow> 'v option" where
  "getitem a i j k l =
     (if i < length a \<and> j < length (a ! i) \<and> k < length (a ! i ! j) \<and> l < length (a ! i ! j ! k)
      then Some (a ! i ! j ! k ! l) else None)"

text \<open>The shape of an array, checked axis by axis.\<close>

definition has_shape :: "nat \<Rightarrow> nat \<Rightarrow> nat \<Rightarrow> nat \<Rightarrow> 'v ndarray \<Rightarrow> bool" where
  "has_shape n0 n1 n2 n3 a =
     (length a = n0 \<and>
      list_all (\<lambda>x. length x = n1 \<and>
        list_all (\<lambda>y. length y = n2 \<and> list_all (\<lambda>z. length z = n3) y) x) a)"

section \<open>The model object\<close>

definition DEFAULT_KNOTS :: "real list" where
  "DEFAULT_KNOTS = [1.00000,  0.96512,  0.92675,  0.88454,  0.83810,  0.78701,
                    0.73081,  0.66899,  0.60097,  0.52615,  0.44384,  0.35329,
                    0.25367,  0.14409,  0.02353, -0.010909, -0.25499, -0.41550,
                   -0.59207, -0.78631, -1.00000]"

text \<open>
  The attributes of a \<open>PyRTS\<close> object. \<open>degree\<close> and \<open>coefs\<close> are \<open>None\<close> until a
  degree is known. The values stored in the array are what \<open>float\<close> makes of a token; the
  type \<open>'v\<close> of these values and the conversion are parameters of the model, and the zero
  of \<open>'v\<close> is the \<open>0.0\<close> of \<open>numpy.zeros\<close>. The knots are kept as the numbers their
  literals denote; the module never computes with them.
\<close>

record 'v pyrts =
  knots :: "real list"
  degree :: "int option"
  coefs :: "'v ndarray option"
  inner_radius :: real
  outer_radius :: real

text \<open>\<open>_allocate_coefs\<close>\<close>

definition allocate_coefs :: "('v::zero) pyrts \<Rightarrow> (error \<times> 'v pyrts) + 'v pyrts" where
  "allocate_coefs self =
     (case degree self of
        None \<Rightarrow> Inl (TypeError, self)
      | Some d \<Rightarrow>
          if d + 1 < 0 then Inl (ValueError, self)
          else Inr (self\<lparr>coefs := Some (zeros (length (knots self)) 2 (nat (d + 1)) (nat (d + 1)))\<rparr>))"

section \<open>\<open>read_sph_stream\<close>\<close>

text \<open>
  The local variables of \<open>read_sph_stream\<close> that live across the iterations of its loop
  over the lines, together with the object.
\<close>

record 'v reader =
  header :: "string list option"
  dataline :: "string list"
  ri :: nat
  li :: nat
  self :: "'v pyrts"

text \<open>
  The assignment \<open>self.coefs[i, j, k, l] = float(coef)\<close>: the right-hand side is
  evaluated first, then the item is stored.
\<close>

definition store ::
  "(string \<Rightarrow> 'v option) \<Rightarrow> 'v pyrts \<Rightarrow> nat \<Rightarrow> nat \<Rightarrow> nat \<Rightarrow> nat \<Rightarrow> string \<Rightarrow>
     (error \<times> 'v pyrts) + 'v pyrts" where
  "store py_float obj i j k l coef =
     (case py_float coef of
        None \<Rightarrow> Inl (ValueError, obj)
      | Some v \<Rightarrow>
          (case coefs obj of
             None \<Rightarrow> Inl (TypeError, obj)
           | Some a \<Rightarrow>
               (case setitem a i j k l v of
                  None \<Rightarrow> Inl (IndexError, obj)
                | Some a' \<Rightarrow> Inr (obj\<lparr>coefs := Some a'\<rparr>))))"

text \<open>
  The inner loop \<open>for m, coef in enumerate(dataline)\<close>, from position \<open>m\<close> with the
  running order index \<open>mi\<close>.
\<close>

fun decode ::
  "(string \<Rightarrow> 'v option) \<Rightarrow> nat \<Rightarrow> nat \<Rightarrow> 'v pyrts \<Rightarrow> nat \<Rightarrow> nat \<Rightarrow> string list \<Rightarrow>
     (error \<times> 'v pyrts) + 'v pyrts" where
  "decode py_float r l obj mi m [] = Inr obj"
| "decode py_float r l obj mi m (coef # rest) =
     (if m = 0 then
        (case store py_float obj r 0 l mi coef of
           Inl e \<Rightarrow> Inl e
         | Inr obj' \<Rightarrow> decode py_float r l obj' (mi + 1) (m + 1) rest)
      else if m mod 2 = 1 then
        (case store py_float obj r 0 l mi coef of
           Inl e \<Rightarrow> Inl e
         | Inr obj' \<Rightarrow> decode py_float r l obj' mi (m + 1) rest)
      else
        (case store py_float obj r 1 l mi coef of
           Inl e \<Rightarrow> Inl e
         | Inr obj' \<Rightarrow> decode py_float r l obj' (mi + 1) (m + 1) rest))"

text \<open>
  The branch of the loop body taken while \<open>header is None\<close>: the line is split, the four
  header tokens are read in the order of the source, the two counts of \<open>'1'\<close> are
  checked, and the array is allocated when the object has none.
\<close>

definition header_line ::
  "(string \<Rightarrow> int option) \<Rightarrow> ('v::zero) reader \<Rightarrow> string \<Rightarrow> (error \<times> 'v pyrts) + 'v reader" where
  "header_line py_int st line =
     (let hdr = str_split line; obj = self st in
      if length hdr \<le> 0 then Inl (IndexError, obj)
      else if py_int (hdr ! 0) = None then Inl (ValueError, obj)
      else if length hdr \<le> 1 then Inl (IndexError, obj)
      else
        let used_degrees_in_file = str_count (hdr ! 1) CHR ''1'' in
        if degree obj \<noteq> None \<and> Some (int used_degrees_in_file - 1) \<noteq> degree obj
        then Inl (AssertionError ''Wrong number of 1s in SH header'', obj)
        else if length hdr \<le> 2 then Inl (IndexError, obj)
        else if py_int (hdr ! 2) = None then Inl (ValueError, obj)
        else if length hdr \<le> 3 then Inl (IndexError, obj)
        else
          let used_knots_in_file = str_count (hdr ! 3) CHR ''1'' in
          if length (knots obj) \<noteq> used_knots_in_file
          then Inl (AssertionError ''Wrong number of 1s in knots header'', obj)
          else if coefs obj = None then
            (case allocate_coefs (obj\<lparr>degree := Some (int used_degrees_in_file - 1)\<rparr>) of
               Inl e \<Rightarrow> Inl e
             | Inr obj' \<Rightarrow> Inr (st\<lparr>header := Some hdr, self := obj'\<rparr>))
          else Inr (st\<lparr>header := Some hdr\<rparr>))"

text \<open>
  The other branch. The statements under \<open>if len(dataline) == (li * 2) + 1\<close>:
  the assertion on \<open>ri\<close>, the inner loop, the advance of \<open>li\<close> and \<open>ri\<close>, and
  the clearing of the buffer.
\<close>

definition complete_group ::
  "(string \<Rightarrow> 'v option) \<Rightarrow> 'v reader \<Rightarrow> (error \<times> 'v pyrts) + 'v reader" where
  "complete_group py_float st =
     (if \<not> ri st \<le> length (knots (self st))
      then Inl (AssertionError ''Too many lines!'', self st)
      else
        (case decode py_float (ri st) (li st) (self st) 0 0 (dataline st) of
           Inl e \<Rightarrow> Inl e
         | Inr obj \<Rightarrow>
             (case degree obj of
                None \<Rightarrow> Inl (TypeError, obj)
              | Some d \<Rightarrow>
                  if int (li st + 1) > d
                  then Inr (st\<lparr>self := obj, li := 0, ri := ri st + 1, dataline := []\<rparr>)
                  else Inr (st\<lparr>self := obj, li := li st + 1, dataline := []\<rparr>))))"

text \<open>
  The whole branch: the tokens of the line are appended to \<open>dataline\<close>; a buffer of
  exactly \<open>li * 2 + 1\<close> tokens is decoded and cleared; the last statement of the body
  asserts that what is then in the buffer is shorter than the group now expected.
\<close>

definition body_line ::
  "(string \<Rightarrow> 'v option) \<Rightarrow> 'v reader \<Rightarrow> string \<Rightarrow> (error \<times> 'v pyrts) + 'v reader" where
  "body_line py_float st line =
     (let st1 = st\<lparr>dataline := dataline st @ str_split line\<rparr> in
      case (if length (dataline st1) = li st1 * 2 + 1 then complete_group py_float st1
            else Inr st1) of
        Inl e \<Rightarrow> Inl e
      | Inr st2 \<Rightarrow>
          if length (dataline st2) < li st2 * 2 + 1 then Inr st2
          else Inl (AssertionError ''Too much data'', self st2))"

text \<open>The loop \<open>for line in fileobj\<close>; the stream is the list of its lines.\<close>

fun lines_loop ::
  "(string \<Rightarrow> 'v option) \<Rightarrow> (string \<Rightarrow> int option) \<Rightarrow> ('v::zero) reader \<Rightarrow> string list \<Rightarrow>
     (error \<times> 'v pyrts) + 'v reader" where
  "lines_loop py_float py_int st [] = Inr st"
| "lines_loop py_float py_int st (line # rest) =
     (case (if header st = None then header_line py_int st line else body_line py_float st line) of
        Inl e \<Rightarrow> Inl e
      | Inr st' \<Rightarrow> lines_loop py_float py_int st' rest)"

text \<open>The values of the local variables before the loop, and the method.\<close>

definition start :: "'v pyrts \<Rightarrow> 'v reader" where
  "start obj = \<lparr>header = None, dataline = [], ri = 0, li = 0, self = obj\<rparr>"

definition read_sph_stream ::
  "(string \<Rightarrow> 'v option) \<Rightarrow> (string \<Rightarrow> int option) \<Rightarrow> ('v::zero) pyrts \<Rightarrow> string list \<Rightarrow>
     (error \<times> 'v pyrts) + 'v pyrts" where
  "read_sph_stream py_float py_int obj fileobj =
     (case lines_loop py_float py_int (start obj) fileobj of
        Inl e \<Rightarrow> Inl e
      | Inr st \<Rightarrow> Inr (self st))"

section \<open>The constructor\<close>

text \<open>
  \<open>__init__\<close>. The \<open>filename\<close> argument is represented by the lines of the file it
  names, \<open>read_sph_file\<close> being \<open>read_sph_stream\<close> on the opened file. A constructor that
  raises yields no object. The two radii are assigned last in the source; the parser never
  reads them, so they are filled in from the beginning.
\<close>

definition init ::
  "(string \<Rightarrow> 'v option) \<Rightarrow> (string \<Rightarrow> int option) \<Rightarrow>
     string list option \<Rightarrow> int option \<Rightarrow> real list option \<Rightarrow> real \<Rightarrow> real \<Rightarrow>
     error + ('v::zero) pyrts" where
  "init py_float py_int filename deg kn inner outer =
     (let obj0 = \<lparr>knots = (case kn of None \<Rightarrow> DEFAULT_KNOTS | Some ks \<Rightarrow> ks),
                  degree = deg, coefs = None, inner_radius = inner, outer_radius = outer\<rparr> in
      case (if deg \<noteq> None then allocate_coefs obj0 else Inr obj0) of
        Inl (e, _) \<Rightarrow> Inl e
      | Inr obj1 \<Rightarrow>
          (case (case filename of None \<Rightarrow> Inr obj1
                 | Some fileobj \<Rightarrow> read_sph_stream py_float py_int obj1 fileobj) of
             Inl (e, _) \<Rightarrow> Inl e
           | Inr obj2 \<Rightarrow>
               if coefs obj2 = None
               then Inl (AssertionError ''You must provide a filename or degree'')
               else Inr obj2))"

section \<open>Reading the array, and the shape the constructor establishes\<close>

text \<open>\<open>self.coefs[i, j, k, l]\<close> read back; \<open>None\<close> when there is no such entry.\<close>

definition coef_at :: "'v pyrts \<Rightarrow> nat \<Rightarrow> nat \<Rightarrow> nat \<Rightarrow> nat \<Rightarrow> 'v option" where
  "coef_at obj i j k l = (case coefs obj of None \<Rightarrow> None | Some a \<Rightarrow> getitem a i j k l)"

text \<open>
  An object whose array, when it has one, has the shape \<open>_allocate_coefs\<close> gives it for
  its knots and degree. Every object the constructor returns is of this kind.
\<close>

definition consistent :: "'v pyrts \<Rightarrow> bool" where
  "consistent obj =
     (case coefs obj of
        None \<Rightarrow> True
      | Some a \<Rightarrow>
          (case degree obj of
             None \<Rightarrow> False
           | Some d \<Rightarrow> - 1 \<le> d \<and> has_shape (length (knots obj)) 2 (nat (d + 1)) (nat (d + 1)) a))"

text \<open>
  The same in terms of reads: the object has a degree \<open>d\<close> and an array, and the entries
  that can be read are those of the box \<open>len(knots) \<times> 2 \<times> (d + 1) \<times> (d + 1)\<close>.
\<close>

definition in_bounds :: "'v pyrts \<Rightarrow> bool" where
  "in_bounds obj =
     (\<exists>d. degree obj = Some d \<and> - 1 \<le> d \<and>
        (\<forall>i j k l. coef_at obj i j k l \<noteq> None \<longleftrightarrow>
           i < length (knots obj) \<and> j < 2 \<and> int k \<le> d \<and> int l \<le> d))"

section \<open>The format as the specification words it\<close>

text \<open>
  The running order index of the specification: it starts at 0, the token at position 0
  advances it to 1, a token at an odd position leaves it, a token at an even position
  advances it. \<open>running_mi m\<close> is its value when the token at position \<open>m\<close> is written.
\<close>

fun running_mi :: "nat \<Rightarrow> nat" where
  "running_mi 0 = 0"
| "running_mi (Suc m) =
     (if m = 0 then 1 else if m mod 2 = 1 then running_mi m else running_mi m + 1)"

text \<open>The component a position writes: real (0) at position 0 and at odd positions,
  imaginary (1) at the other positions.\<close>

definition component_at :: "nat \<Rightarrow> nat" where
  "component_at m = (if m = 0 \<or> m mod 2 = 1 then 0 else 1)"

text \<open>
  The body as a flat stream of tokens, with no lines: the group of \<open>li * 2 + 1\<close> tokens
  is taken from the front of what is pending, completed as the parser completes a group,
  and the rest is read on; fewer tokens than a group stay pending.
\<close>

function read_tokens ::
  "(string \<Rightarrow> 'v option) \<Rightarrow> 'v reader \<Rightarrow> string list \<Rightarrow> (error \<times> 'v pyrts) + 'v reader" where
  "read_tokens py_float st toks =
     (if length (dataline st @ toks) < li st * 2 + 1 then Inr (st\<lparr>dataline := dataline st @ toks\<rparr>)
      else
        (case complete_group py_float (st\<lparr>dataline := take (li st * 2 + 1) (dataline st @ toks)\<rparr>) of
           Inl e \<Rightarrow> Inl e
         | Inr st' \<Rightarrow>
             read_tokens py_float (st'\<lparr>dataline := []\<rparr>) (drop (li st * 2 + 1) (dataline st @ toks))))"
  by pat_completeness auto
termination
  by (relation "measure (\<lambda>(f, st, toks). length (dataline st) + length toks)") auto

declare read_tokens.simps [simp del]

section \<open>Conversions and streams for the examples\<close>

text \<open>
  \<open>float\<close> and \<open>int\<close> belong to Python, not to the module, and the theorems below hold
  for every pair of conversions. The examples are run with these two, which read a token
  of decimal digits, with one point for \<open>example_float\<close>, as the exact number it writes.
\<close>

definition digit :: "char \<Rightarrow> nat option" where
  "digit c = map_of (zip ''0123456789'' [0 ..< 10]) c"

fun digits :: "nat \<Rightarrow> string \<Rightarrow> nat option" where
  "digits acc [] = Some acc"
| "digits acc (c # cs) = (case digit c of None \<Rightarrow> None | Some d \<Rightarrow> digits (10 * acc + d) cs)"

definition example_int :: "string \<Rightarrow> int option" where
  "example_int s = (if s = [] then None else map_option int (digits 0 s))"

definition example_float :: "string \<Rightarrow> rat option" where
  "example_float s =
     (let ip = takeWhile (\<lambda>c. c \<noteq> CHR ''.'') s;
          fp = drop 1 (dropWhile (\<lambda>c. c \<noteq> CHR ''.'') s)
      in if ip = [] \<or> fp = [] then None
         else (case (digits 0 ip, digits 0 fp) of
                 (Some a, Some b) \<Rightarrow> Some (of_nat a + of_nat b / 10 ^ length fp)
               | _ \<Rightarrow> None))"

text \<open>
  The stream of the end-to-end scenario: the header for degree 1 and 21 knots, then for
  each knot a line of one token and a line of three.
\<close>

definition scenario_stream :: "string list" where
  "scenario_stream =
     ''1 11 21 111111111111111111111'' # concat (replicate 21 [''0.5'', ''0.1 0.2 0.3''])"

text \<open>Two small objects: one knot and no degree yet; two knots and degree 1.\<close>

definition one_knot :: "rat pyrts" where
  "one_knot = \<lparr>knots = [1], degree = None, coefs = None,
               inner_radius = 3480, outer_radius = 6346.691\<rparr>"

definition two_knots :: "rat pyrts" where
  "two_knots = \<lparr>knots = [1, - 1], degree = Some 1, coefs = Some (zeros 2 2 2 2),
                inner_radius = 3480, outer_radius = 6346.691\<rparr>"

text \<open>
  A complete stream for each of them, and the object the parser leaves: for one knot the
  header announces degree 0; for two knots each knot has the groups \<open>0.5\<close> and
  \<open>0.1 0.2 0.3\<close> of the scenario.
\<close>

definition one_knot_stream :: "string list" where
  "one_knot_stream = [''0 1 1 1'', ''0.5'']"

definition one_knot_read :: "rat pyrts" where
  "one_knot_read = one_knot\<lparr>degree := Some 0, coefs := Some [[[[1 / 2]], [[0]]]]\<rparr>"

definition two_knots_stream :: "string list" where
  "two_knots_stream = [''1 11 2 11'', ''0.5'', ''0.1 0.2 0.3'', ''0.5'', ''0.1 0.2 0.3'']"

definition two_knots_read :: "rat pyrts" where
  "two_knots_read = two_knots\<lparr>coefs := Some
     [[[[1 / 2, 0], [1 / 10, 1 / 5]], [[0, 0], [0, 3 / 10]]],
      [[[1 / 2, 0], [1 / 10, 1 / 5]], [[0, 0], [0, 3 / 10]]]]\<rparr>"

text \<open>The variables of the loop after the header line of \<open>two_knots_stream\<close>.\<close>

definition two_knots_header_read :: "rat reader" where
  "two_knots_header_read =
     \<lparr>header = Some [''1'', ''11'', ''2'', ''11''], dataline = [], ri = 0, li = 0,
      self = two_knots\<rparr>"

text \<open>The same after the first group of the first knot, and after its second group.\<close>

definition two_knots_group0_read :: "rat reader" where
  "two_knots_group0_read =
     \<lparr>header = Some [''1'', ''11'', ''2'', ''11''], dataline = [], ri = 0, li = 1,
      self = two_knots\<lparr>coefs := Some
        [[[[1 / 2, 0], [0, 0]], [[0, 0], [0, 0]]],
         [[[0, 0], [0, 0]], [[0, 0], [0, 0]]]]\<rparr>\<rparr>"

definition two_knots_group1_read :: "rat reader" where
  "two_knots_group1_read =
     \<lparr>header = Some [''1'', ''11'', ''2'', ''11''], dataline = [], ri = 1, li = 0,
      self = two_knots\<lparr>coefs := Some
        [[[[1 / 2, 0], [1 / 10, 1 / 5]], [[0, 0], [0, 3 / 10]]],
         [[[0, 0], [0, 0]], [[0, 0], [0, 0]]]]\<rparr>\<rparr>"

text \<open>The variables of the loop at the end of \<open>one_knot_stream\<close>.\<close>

definition one_knot_stream_read :: "rat reader" where
  "one_knot_stream_read =
     \<lparr>header = Some [''0'', ''1'', ''1'', ''1''], dataline = [], ri = 1, li = 0,
      self = one_knot_read\<rparr>"

section \<open>Properties of the array operations\<close>

lemma upd_None_iff: "upd i f xs = None \<longleftrightarrow> (i < length xs \<longrightarrow> f (xs ! i) = None)"
  by (simp add: upd_def)

lemma upd_Some: "upd i f xs = Some ys \<Longrightarrow> \<exists>y. i < length xs \<and> f (xs ! i) = Some y \<and> ys = xs[i := y]"
  by (auto simp: upd_def split: if_splits)

lemma setitem_None_iff: "setitem a i j k l v = None \<longleftrightarrow> getitem a i j k l = None"
  by (auto simp: setitem_def getitem_def upd_None_iff)

lemma getitem_setitem:
  assumes "setitem a i j k l v = Some a'"
  shows "getitem a' i' j' k' l' =
           (if i' = i \<and> j' = j \<and> k' = k \<and> l' = l then Some v else getitem a i' j' k' l')"
proof -
  from assms obtain x where x: "i < length a" "upd j (upd k (upd l (\<lambda>_. Some v))) (a ! i) = Some x" "a' = a[i := x]"
    unfolding setitem_def by (blast dest: upd_Some)
  from x(2) obtain y where y: "j < length (a ! i)" "upd k (upd l (\<lambda>_. Some v)) (a ! i ! j) = Some y" "x = (a ! i)[j := y]"
    by (blast dest: upd_Some)
  from y(2) obtain z where z: "k < length (a ! i ! j)" "upd l (\<lambda>_. Some v) (a ! i ! j ! k) = Some z" "y = (a ! i ! j)[k := z]"
    by (blast dest: upd_Some)
  from z(2) have w: "l < length (a ! i ! j ! k)" "z = (a ! i ! j ! k)[l := v]"
    by (auto dest: upd_Some)
  show ?thesis
    unfolding getitem_def x(3) y(3) z(3) w(2)
    using x(1) y(1) z(1) w(1)
    by (cases "i' = i"; cases "j' = j"; cases "k' = k"; cases "l' = l"; simp add: nth_list_update)
qed

lemma getitem_zeros:
  "getitem (zeros n0 n1 n2 n3) i j k l =
     (if i < n0 \<and> j < n1 \<and> k < n2 \<and> l < n3 then Some 0 else None)"
  by (auto simp: getitem_def zeros_def)

lemma getitem_has_shape:
  "has_shape n0 n1 n2 n3 a \<Longrightarrow>
     getitem a i j k l \<noteq> None \<longleftrightarrow> i < n0 \<and> j < n1 \<and> k < n2 \<and> l < n3"
  by (auto simp: getitem_def has_shape_def list_all_length)

lemma has_shape_zeros: "has_shape n0 n1 n2 n3 (zeros n0 n1 n2 n3)"
  by (simp add: has_shape_def zeros_def list_all_length)

subsection \<open>The assignment of one coefficient\<close>

lemma store_Inr:
  assumes "store f obj i j k l c = Inr obj'"
  shows "\<exists>v a a'. f c = Some v \<and> coefs obj = Some a \<and> setitem a i j k l v = Some a' \<and>
           obj' = obj\<lparr>coefs := Some a'\<rparr>"
  using assms by (auto simp: store_def split: option.splits)

lemma store_fields:
  assumes "store f obj i j k l c = Inr obj'"
  shows "knots obj' = knots obj" "degree obj' = degree obj"
    "inner_radius obj' = inner_radius obj" "outer_radius obj' = outer_radius obj"
  using store_Inr [OF assms] by auto

lemma store_coef_at:
  assumes "store f obj i j k l c = Inr obj'"
  shows "coef_at obj' i' j' k' l' =
           (if i' = i \<and> j' = j \<and> k' = k \<and> l' = l then f c else coef_at obj i' j' k' l')"
proof -
  from store_Inr [OF assms] obtain v a a' where
    h: "f c = Some v" "coefs obj = Some a" "setitem a i j k l v = Some a'" "obj' = obj\<lparr>coefs := Some a'\<rparr>"
    by blast
  show ?thesis
    using getitem_setitem [OF h(3), of i' j' k' l'] h(1,2,4) by (simp add: coef_at_def)
qed

lemma store_Inr_float: "store f obj i j k l c = Inr obj' \<Longrightarrow> f c \<noteq> None"
  by (auto dest: store_Inr)

lemma store_succeeds:
  assumes "f c \<noteq> None" "coef_at obj i j k l \<noteq> None"
  shows "\<exists>obj'. store f obj i j k l c = Inr obj'"
proof -
  from assms obtain v a where h: "f c = Some v" "coefs obj = Some a" "getitem a i j k l \<noteq> None"
    by (auto simp: coef_at_def split: option.splits)
  from h(3) obtain a' where "setitem a i j k l v = Some a'"
    using setitem_None_iff [of a i j k l v] by auto
  with h show ?thesis by (simp add: store_def)
qed

lemma store_Inl_obj: "store f obj i j k l c = Inl (e, obj') \<Longrightarrow> obj' = obj"
  by (auto simp: store_def split: option.splits)

subsection \<open>The positions of a group\<close>

lemma running_mi_eq: "running_mi m = (m + 1) div 2"
proof (induction m)
  case 0
  show ?case by simp
next
  case (Suc m)
  show ?case
  proof (cases "m mod 2 = 1")
    case True
    then have "(Suc m + 1) div 2 = (m + 1) div 2" by arith
    with True Suc show ?thesis by auto
  next
    case False
    then have "(Suc m + 1) div 2 = (m + 1) div 2 + 1" by arith
    with False Suc show ?thesis by auto
  qed
qed

lemma component_at_eq_iff:
  assumes "component_at p = component_at q"
  shows "(p = 0 \<or> p mod 2 = 1) = (q = 0 \<or> q mod 2 = 1)"
  using assms unfolding component_at_def by (metis zero_neq_one)

lemma half_parity_inj:
  fixes p q :: nat
  assumes "(p + 1) div 2 = (q + 1) div 2" "p mod 2 = q mod 2"
  shows "p = q"
proof -
  have d: "Suc p div 2 = Suc q div 2" using assms(1) by simp
  have m: "Suc p mod 2 = Suc q mod 2" using assms(2) by (metis mod_Suc_eq)
  have "Suc p = Suc p div 2 * 2 + Suc p mod 2" by (rule div_mult_mod_eq [symmetric])
  also have "\<dots> = Suc q div 2 * 2 + Suc q mod 2" by (simp only: d m)
  also have "\<dots> = Suc q" by (rule div_mult_mod_eq)
  finally show ?thesis by simp
qed

lemma target_inj:
  assumes "component_at p = component_at q" "running_mi p = running_mi q"
  shows "p = q"
proof -
  have e: "(p + 1) div 2 = (q + 1) div 2" using assms(2) by (simp add: running_mi_eq)
  have c: "(p = 0 \<or> p mod 2 = 1) = (q = 0 \<or> q mod 2 = 1)"
    by (rule component_at_eq_iff [OF assms(1)])
  have z: "n = 0 \<longleftrightarrow> (n + 1) div 2 = 0" for n :: nat
  proof
    assume "(n + 1) div 2 = 0"
    then have "n + 1 < 2" by (simp add: div_eq_0_iff)
    then show "n = 0" by simp
  qed simp
  show ?thesis
  proof (cases "p = 0")
    case True
    then have "q = 0" using e z [of q] by simp
    with True show ?thesis by simp
  next
    case False
    then have "q \<noteq> 0" using e z [of q] z [of p] by simp
    with False c have "(p mod 2 = 1) = (q mod 2 = 1)" by simp
    then have "p mod 2 = q mod 2" by (metis mod_2_eq_odd of_bool_eq_iff odd_iff_mod_2_eq_one)
    with e show ?thesis by (rule half_parity_inj)
  qed
qed

subsection \<open>The inner loop\<close>

lemma decode_Cons:
  "decode f r l obj (running_mi m) m (c # rest) =
     (case store f obj r (component_at m) l (running_mi m) c of
        Inl e \<Rightarrow> Inl e
      | Inr obj' \<Rightarrow> decode f r l obj' (running_mi (Suc m)) (Suc m) rest)"
proof (cases "m = 0")
  case True
  then show ?thesis by (simp add: component_at_def cong: sum.case_cong)
next
  case False
  show ?thesis
  proof (cases "m mod 2 = 1")
    case True
    with False show ?thesis by (simp add: component_at_def cong: sum.case_cong)
  next
    case odd: False
    with False show ?thesis by (simp add: component_at_def cong: sum.case_cong)
  qed
qed

lemma decode_fields:
  "decode f r l obj (running_mi m) m toks = Inr obj' \<Longrightarrow>
     knots obj' = knots obj \<and> degree obj' = degree obj \<and>
     inner_radius obj' = inner_radius obj \<and> outer_radius obj' = outer_radius obj"
proof (induction toks arbitrary: obj m)
  case Nil
  then show ?case by simp
next
  case (Cons c rest)
  from Cons.prems obtain obj1 where
    s: "store f obj r (component_at m) l (running_mi m) c = Inr obj1"
    and d: "decode f r l obj1 (running_mi (Suc m)) (Suc m) rest = Inr obj'"
    unfolding decode_Cons by (auto split: sum.splits)
  from Cons.IH [OF d] store_fields [OF s] show ?case by simp
qed

lemma decode_frame:
  assumes "decode f r l obj (running_mi m) m toks = Inr obj'"
    and "\<And>p. m \<le> p \<Longrightarrow> p < m + length toks \<Longrightarrow>
            \<not> (i = r \<and> j = component_at p \<and> k = l \<and> q = running_mi p)"
  shows "coef_at obj' i j k q = coef_at obj i j k q"
  using assms
proof (induction toks arbitrary: obj m)
  case Nil
  then show ?case by simp
next
  case (Cons c rest)
  from Cons.prems(1) obtain obj1 where
    s: "store f obj r (component_at m) l (running_mi m) c = Inr obj1"
    and d: "decode f r l obj1 (running_mi (Suc m)) (Suc m) rest = Inr obj'"
    unfolding decode_Cons by (auto split: sum.splits)
  have "coef_at obj' i j k q = coef_at obj1 i j k q"
    by (rule Cons.IH [OF d]) (use Cons.prems(2) in auto)
  also have "\<dots> = coef_at obj i j k q"
    using store_coef_at [OF s, of i j k q] Cons.prems(2) [of m] by auto
  finally show ?case .
qed

lemma decode_written:
  assumes "decode f r l obj (running_mi m) m toks = Inr obj'" and "p < length toks"
  shows "coef_at obj' r (component_at (m + p)) l (running_mi (m + p)) = f (toks ! p)"
  using assms
proof (induction toks arbitrary: obj m p)
  case Nil
  then show ?case by simp
next
  case (Cons c rest)
  from Cons.prems(1) obtain obj1 where
    s: "store f obj r (component_at m) l (running_mi m) c = Inr obj1"
    and d: "decode f r l obj1 (running_mi (Suc m)) (Suc m) rest = Inr obj'"
    unfolding decode_Cons by (auto split: sum.splits)
  show ?case
  proof (cases p)
    case 0
    have "coef_at obj' r (component_at m) l (running_mi m) =
            coef_at obj1 r (component_at m) l (running_mi m)"
    proof (rule decode_frame [OF d])
      fix p' assume "Suc m \<le> p'"
      then have "p' \<noteq> m" by simp
      then show "\<not> (r = r \<and> component_at m = component_at p' \<and> l = l \<and> running_mi m = running_mi p')"
        using target_inj [of m p'] by auto
    qed
    also have "\<dots> = f c"
      using store_coef_at [OF s, of r "component_at m" l "running_mi m"] by simp
    finally show ?thesis using 0 by simp
  next
    case (Suc p')
    with Cons.prems(2) have "p' < length rest" by simp
    from Cons.IH [OF d this] Suc show ?thesis by simp
  qed
qed

lemma decode_Inr_float:
  "decode f r l obj (running_mi m) m toks = Inr obj' \<Longrightarrow> t \<in> set toks \<Longrightarrow> f t \<noteq> None"
proof (induction toks arbitrary: obj m)
  case Nil
  then show ?case by simp
next
  case (Cons c rest)
  from Cons.prems(1) obtain obj1 where
    s: "store f obj r (component_at m) l (running_mi m) c = Inr obj1"
    and d: "decode f r l obj1 (running_mi (Suc m)) (Suc m) rest = Inr obj'"
    unfolding decode_Cons by (auto split: sum.splits)
  from Cons.prems(2) Cons.IH [OF d] store_Inr_float [OF s] show ?case by auto
qed

lemma decode_succeeds:
  assumes "\<And>t. t \<in> set toks \<Longrightarrow> f t \<noteq> None"
    and "\<And>p. m \<le> p \<Longrightarrow> p < m + length toks \<Longrightarrow>
            coef_at obj r (component_at p) l (running_mi p) \<noteq> None"
  shows "\<exists>obj'. decode f r l obj (running_mi m) m toks = Inr obj'"
  using assms
proof (induction toks arbitrary: obj m)
  case Nil
  show ?case by simp
next
  case (Cons c rest)
  have fc: "f c \<noteq> None" by (rule Cons.prems(1)) simp
  have "coef_at obj r (component_at m) l (running_mi m) \<noteq> None"
    by (rule Cons.prems(2)) simp_all
  with fc have "\<exists>obj1. store f obj r (component_at m) l (running_mi m) c = Inr obj1"
    by (rule store_succeeds)
  then obtain obj1 where
    s: "store f obj r (component_at m) l (running_mi m) c = Inr obj1" ..
  have "\<exists>obj'. decode f r l obj1 (running_mi (Suc m)) (Suc m) rest = Inr obj'"
  proof (rule Cons.IH)
    fix t assume "t \<in> set rest"
    then have "t \<in> set (c # rest)" by simp
    then show "f t \<noteq> None" by (rule Cons.prems(1))
  next
    fix p assume p: "Suc m \<le> p" "p < Suc m + length rest"
    have "coef_at obj r (component_at p) l (running_mi p) \<noteq> None"
      by (rule Cons.prems(2)) (use p in simp_all)
    moreover have "coef_at obj1 r (component_at p) l (running_mi p) =
        (if r = r \<and> component_at p = component_at m \<and> l = l \<and> running_mi p = running_mi m
         then f c else coef_at obj r (component_at p) l (running_mi p))"
      by (rule store_coef_at [OF s])
    ultimately show "coef_at obj1 r (component_at p) l (running_mi p) \<noteq> None"
      using fc by (simp only: split: if_splits) auto
  qed
  then obtain obj' where "decode f r l obj1 (running_mi (Suc m)) (Suc m) rest = Inr obj'" ..
  with s have "decode f r l obj (running_mi m) m (c # rest) = Inr obj'"
    by (simp only: decode_Cons sum.case)
  then show ?case ..
qed

section \<open>Properties of the loop over the lines\<close>

lemma complete_group_Inr:
  assumes "complete_group f st = Inr st'"
  shows "\<exists>obj d. ri st \<le> length (knots (self st)) \<and>
           decode f (ri st) (li st) (self st) (running_mi 0) 0 (dataline st) = Inr obj \<and>
           degree obj = Some d \<and>
           st' = (if int (li st + 1) > d
                  then st\<lparr>self := obj, li := 0, ri := ri st + 1, dataline := []\<rparr>
                  else st\<lparr>self := obj, li := li st + 1, dataline := []\<rparr>)"
  using assms
  by (auto simp: complete_group_def split: if_splits sum.splits option.splits)

lemma complete_group_dataline: "complete_group f st = Inr st' \<Longrightarrow> dataline st' = []"
  by (auto dest!: complete_group_Inr split: if_splits)

lemma complete_group_header: "complete_group f st = Inr st' \<Longrightarrow> header st' = header st"
  by (auto dest!: complete_group_Inr split: if_splits)

lemma body_line_short:
  "length (dataline st @ str_split line) < li st * 2 + 1 \<Longrightarrow>
     body_line f st line = Inr (st\<lparr>dataline := dataline st @ str_split line\<rparr>)"
  by (simp add: body_line_def)

lemma body_line_long:
  "li st * 2 + 1 < length (dataline st @ str_split line) \<Longrightarrow>
     body_line f st line = Inl (AssertionError ''Too much data'', self st)"
  by (simp add: body_line_def)

lemma body_line_exact:
  assumes "length (dataline st @ str_split line) = li st * 2 + 1"
  shows "body_line f st line = complete_group f (st\<lparr>dataline := dataline st @ str_split line\<rparr>)"
proof (cases "complete_group f (st\<lparr>dataline := dataline st @ str_split line\<rparr>)")
  case (Inl e)
  with assms show ?thesis by (simp add: body_line_def)
next
  case (Inr st2)
  from complete_group_dataline [OF Inr] Inr assms show ?thesis by (simp add: body_line_def)
qed

lemma body_line_cases:
  "body_line f st line =
     (if length (dataline st @ str_split line) < li st * 2 + 1
      then Inr (st\<lparr>dataline := dataline st @ str_split line\<rparr>)
      else if length (dataline st @ str_split line) = li st * 2 + 1
      then complete_group f (st\<lparr>dataline := dataline st @ str_split line\<rparr>)
      else Inl (AssertionError ''Too much data'', self st))"
  using body_line_short [of st line f] body_line_long [of st line f] body_line_exact [of st line f]
  by (cases "length (dataline st @ str_split line) < li st * 2 + 1";
      cases "length (dataline st @ str_split line) = li st * 2 + 1") auto

lemma lines_loop_append:
  "lines_loop f g st (xs @ ys) =
     (case lines_loop f g st xs of Inl e \<Rightarrow> Inl e | Inr st' \<Rightarrow> lines_loop f g st' ys)"
  by (induction xs arbitrary: st) (auto split: sum.splits)

lemma header_line_four:
  assumes "str_split line = t1 # t2 # t3 # t4 # extra" "g t1 \<noteq> None" "g t3 \<noteq> None"
  shows "header_line g st line =
     (if degree (self st) \<noteq> None \<and> Some (int (str_count t2 CHR ''1'') - 1) \<noteq> degree (self st)
      then Inl (AssertionError ''Wrong number of 1s in SH header'', self st)
      else if length (knots (self st)) \<noteq> str_count t4 CHR ''1''
      then Inl (AssertionError ''Wrong number of 1s in knots header'', self st)
      else if coefs (self st) = None
      then Inr (st\<lparr>header := Some (str_split line),
                    self := (self st)\<lparr>degree := Some (int (str_count t2 CHR ''1'') - 1),
                       coefs := Some (zeros (length (knots (self st))) 2
                                  (str_count t2 CHR ''1'') (str_count t2 CHR ''1''))\<rparr>\<rparr>)
      else Inr (st\<lparr>header := Some (str_split line)\<rparr>))"
proof -
  from assms(2,3) obtain a b where ab: "g t1 = Some a" "g t3 = Some b" by auto
  show ?thesis
  proof (cases "degree (self st)")
    case None
    then show ?thesis
      by (simp add: header_line_def allocate_coefs_def Let_def assms(1) ab)
  next
    case (Some d)
    then show ?thesis
      by (cases "d = int (str_count t2 CHR ''1'') - 1")
         (simp_all add: header_line_def allocate_coefs_def Let_def assms(1) ab)
  qed
qed

lemma header_line_empty:
  "str_split line = [] \<Longrightarrow> header_line g st line = Inl (IndexError, self st)"
  by (simp add: header_line_def)

lemma header_line_Inr_header:
  "header_line g st line = Inr st' \<Longrightarrow> header st' = Some (str_split line)"
  by (auto simp: header_line_def Let_def split: if_splits sum.splits)

lemma body_line_header: "body_line f st line = Inr st' \<Longrightarrow> header st' = header st"
  by (auto simp: body_line_cases dest: complete_group_header split: if_splits)

lemma lines_loop_header_kept:
  "header st \<noteq> None \<Longrightarrow> lines_loop f g st ls = Inr st' \<Longrightarrow> header st' = header st"
proof (induction ls arbitrary: st)
  case Nil
  then show ?case by simp
next
  case (Cons line rest)
  from Cons.prems obtain st1 where
    b: "body_line f st line = Inr st1" and r: "lines_loop f g st1 rest = Inr st'"
    by (auto split: sum.splits)
  from body_line_header [OF b] Cons.prems(1) have "header st1 \<noteq> None" "header st1 = header st"
    by simp_all
  with Cons.IH [OF _ r] show ?case by simp
qed

section \<open>The header\<close>

text \<open>
  Claim C9, as amended. The header is read from the first line of the stream, whatever it
  holds: a first line without tokens is not skipped, \<open>header[0]\<close> raises
  \<open>IndexError\<close> on it and the object is left as it was; and whenever the loop runs to
  the end of a stream, the header it has kept is the token list of the first line.
\<close>

theorem header_is_first_line:
  "(str_split line = [] \<longrightarrow>
      read_sph_stream f g obj (line # rest) = Inl (IndexError, obj)) \<and>
   (lines_loop f g (start obj) (line # rest) = Inr st \<longrightarrow>
      header st = Some (str_split line))"
proof (intro conjI impI)
  assume "str_split line = []"
  then show "read_sph_stream f g obj (line # rest) = Inl (IndexError, obj)"
    by (simp add: read_sph_stream_def start_def header_line_empty)
next
  assume a: "lines_loop f g (start obj) (line # rest) = Inr st"
  then obtain st1 where
    h: "header_line g (start obj) line = Inr st1" and r: "lines_loop f g st1 rest = Inr st"
    by (auto simp: start_def split: sum.splits)
  from header_line_Inr_header [OF h] have h1: "header st1 = Some (str_split line)" .
  then have "header st1 \<noteq> None" by simp
  from lines_loop_header_kept [OF this r] h1 show "header st = Some (str_split line)" by simp
qed

text \<open>The theorem at a blank first line, and at a stream that is read to its end.\<close>

theorem header_is_first_line_witness:
  "str_split ''  '' = [] \<and>
   read_sph_stream example_float example_int one_knot [''  '', ''0 1 1 1'']
     = Inl (IndexError, one_knot) \<and>
   lines_loop example_float example_int (start one_knot) [''0 1 1 1'', ''0.5'']
     = Inr \<lparr>header = Some [''0'', ''1'', ''1'', ''1''], dataline = [], ri = 1, li = 0,
             self = one_knot\<lparr>degree := Some 0, coefs := Some [[[[1 / 2]], [[0]]]]\<rparr>\<rparr> \<and>
   header \<lparr>header = Some [''0'', ''1'', ''1'', ''1''], dataline = [], ri = 1, li = 0,
             self = one_knot\<lparr>degree := Some 0, coefs := Some [[[[1 / 2]], [[0]]]]\<rparr>\<rparr>
     = Some (str_split ''0 1 1 1'')"
proof -
  have e: "str_split ''  '' = []" by code_simp
  have l: "lines_loop example_float example_int (start one_knot) [''0 1 1 1'', ''0.5'']
     = Inr \<lparr>header = Some [''0'', ''1'', ''1'', ''1''], dataline = [], ri = 1, li = 0,
             self = one_knot\<lparr>degree := Some 0, coefs := Some [[[[1 / 2]], [[0]]]]\<rparr>\<rparr>"
    by code_simp
  note a = header_is_first_line [THEN conjunct1, THEN mp, OF e]
  note b = header_is_first_line [THEN conjunct2, THEN mp, OF l]
  show ?thesis by (intro conjI e a l b)
qed

text \<open>
  Claim C9 as stated fails: a blank line before the header is not skipped. The stream
  that parses without it raises \<open>IndexError\<close> with it.
\<close>

theorem blank_first_line_counterexample:
  "read_sph_stream example_float example_int one_knot [''  '', ''0 1 1 1'', ''0.5'']
     = Inl (IndexError, one_knot) \<and>
   read_sph_stream example_float example_int one_knot [''0 1 1 1'', ''0.5'']
     = Inr (one_knot\<lparr>degree := Some 0, coefs := Some [[[[1 / 2]], [[0]]]]\<rparr>)"
  by code_simp

subsection \<open>The checks of the header\<close>

lemma lines_loop_start_Cons:
  "lines_loop f g (start obj) (line # rest) =
     (case header_line g (start obj) line of Inl e \<Rightarrow> Inl e | Inr st \<Rightarrow> lines_loop f g st rest)"
  by (simp add: start_def)

lemma read_sph_stream_Cons:
  "read_sph_stream f g obj (line # rest) =
     (case header_line g (start obj) line of
        Inl e \<Rightarrow> Inl e
      | Inr st \<Rightarrow> (case lines_loop f g st rest of Inl e \<Rightarrow> Inl e | Inr st' \<Rightarrow> Inr (self st')))"
  by (simp add: read_sph_stream_def start_def split: sum.splits)

lemma self_start: "self (start obj) = obj"
  by (simp add: start_def)

lemma header_line_mismatch_Inl:
  assumes "str_split line = t1 # t2 # t3 # t4 # extra"
    and "length (knots (self st)) \<noteq> str_count t4 CHR ''1'' \<or>
         (\<exists>d. degree (self st) = Some d \<and> d \<noteq> int (str_count t2 CHR ''1'') - 1)"
  shows "\<exists>e. header_line g st line = Inl (e, self st)"
proof (cases "g t1 = None")
  case True
  then show ?thesis by (simp add: header_line_def Let_def assms(1))
next
  case g1: False
  show ?thesis
  proof (cases "\<exists>d. degree (self st) = Some d \<and> d \<noteq> int (str_count t2 CHR ''1'') - 1")
    case True
    with g1 show ?thesis by (auto simp: header_line_def Let_def assms(1))
  next
    case d: False
    with assms(2) have k: "length (knots (self st)) \<noteq> str_count t4 CHR ''1''" by blast
    show ?thesis
    proof (cases "g t3 = None")
      case True
      with g1 d show ?thesis by (auto simp: header_line_def Let_def assms(1))
    next
      case False
      from header_line_four [OF assms(1) g1 False, of st] d k
      show ?thesis by (cases "degree (self st)") auto
    qed
  qed
qed

text \<open>
  Claim C3. Let the first line hold four header tokens (or more). If the count of
  \<open>'1'\<close> in the fourth token differs from the number of knots of the object, or the
  object has a degree and it differs from the count of \<open>'1'\<close> in the second token
  minus one, then parsing raises while it processes the header, whatever follows, and the
  object at the raise is the object as it was given: no coefficient is written, the array
  and the knots are as before. When the first and the third token are integers, as the
  format has them, the error is the \<open>AssertionError\<close> of one of the two header checks.
\<close>

theorem header_mismatch_raises:
  assumes "str_split line = t1 # t2 # t3 # t4 # extra"
    and "length (knots obj) \<noteq> str_count t4 CHR ''1'' \<or>
         (\<exists>d. degree obj = Some d \<and> d \<noteq> int (str_count t2 CHR ''1'') - 1)"
  shows "(\<exists>e. read_sph_stream f g obj (line # rest) = Inl (e, obj)) \<and>
         (g t1 \<noteq> None \<and> g t3 \<noteq> None \<longrightarrow>
            read_sph_stream f g obj (line # rest)
              = Inl (AssertionError ''Wrong number of 1s in SH header'', obj) \<or>
            read_sph_stream f g obj (line # rest)
              = Inl (AssertionError ''Wrong number of 1s in knots header'', obj))"
proof (intro conjI impI; (elim conjE)?)
  from header_line_mismatch_Inl [OF assms(1), of "start obj" g] assms(2)
  obtain e where "header_line g (start obj) line = Inl (e, obj)"
    by (auto simp: self_start)
  then have "read_sph_stream f g obj (line # rest) = Inl (e, obj)"
    by (simp only: read_sph_stream_Cons sum.case)
  then show "\<exists>e. read_sph_stream f g obj (line # rest) = Inl (e, obj)" ..
next
  assume g1: "g t1 \<noteq> None" and g3: "g t3 \<noteq> None"
  note h = header_line_four [OF assms(1) g1 g3, of "start obj", unfolded self_start]
  show "read_sph_stream f g obj (line # rest)
              = Inl (AssertionError ''Wrong number of 1s in SH header'', obj) \<or>
            read_sph_stream f g obj (line # rest)
              = Inl (AssertionError ''Wrong number of 1s in knots header'', obj)"
  proof (cases "\<exists>d. degree obj = Some d \<and> d \<noteq> int (str_count t2 CHR ''1'') - 1")
    case True
    then have "header_line g (start obj) line
                 = Inl (AssertionError ''Wrong number of 1s in SH header'', obj)"
      unfolding h by auto
    then show ?thesis by (simp only: read_sph_stream_Cons sum.case simp_thms)
  next
    case False
    with assms(2) have k: "length (knots obj) \<noteq> str_count t4 CHR ''1''" by blast
    from False have "\<not> (degree obj \<noteq> None \<and> Some (int (str_count t2 CHR ''1'') - 1) \<noteq> degree obj)"
      by (cases "degree obj") auto
    with k have "header_line g (start obj) line
                 = Inl (AssertionError ''Wrong number of 1s in knots header'', obj)"
      unfolding h by simp
    then show ?thesis by (simp only: read_sph_stream_Cons sum.case simp_thms)
  qed
qed

text \<open>The theorem on an object of two knots and a header that announces one.\<close>

theorem header_mismatch_raises_witness:
  "str_split ''1 11 2 1'' = ''1'' # ''11'' # ''2'' # ''1'' # [] \<and>
   length (knots two_knots) \<noteq> str_count ''1'' CHR ''1'' \<and>
   (\<exists>e. read_sph_stream example_float example_int two_knots [''1 11 2 1'', ''0.5'']
           = Inl (e, two_knots)) \<and>
   example_int ''1'' \<noteq> None \<and> example_int ''2'' \<noteq> None \<and>
   (read_sph_stream example_float example_int two_knots [''1 11 2 1'', ''0.5'']
      = Inl (AssertionError ''Wrong number of 1s in SH header'', two_knots) \<or>
    read_sph_stream example_float example_int two_knots [''1 11 2 1'', ''0.5'']
      = Inl (AssertionError ''Wrong number of 1s in knots header'', two_knots))"
proof -
  have s: "str_split ''1 11 2 1'' = ''1'' # ''11'' # ''2'' # ''1'' # []" by code_simp
  have i1: "example_int ''1'' \<noteq> None" by code_simp
  have i2: "example_int ''2'' \<noteq> None" by code_simp
  have k: "length (knots two_knots) \<noteq> str_count ''1'' CHR ''1''" by code_simp
  then have m: "length (knots two_knots) \<noteq> str_count ''1'' CHR ''1'' \<or>
    (\<exists>d. degree two_knots = Some d \<and> d \<noteq> int (str_count ''11'' CHR ''1'') - 1)" ..
  note t = header_mismatch_raises [OF s m, of example_float example_int "[''0.5'']"]
  note c1 = t [THEN conjunct1]
  note c2 = t [THEN conjunct2, THEN mp, OF conjI [OF i1 i2]]
  show ?thesis by (intro conjI s k c1 i1 i2 c2)
qed

text \<open>
  Claim C5. For a header line of four tokens, the first and the third of them integers, read
  into an object that has neither degree nor array: if the count of \<open>'1'\<close> in the
  fourth token is the number of knots, parsing sets the degree to the count of \<open>'1'\<close>
  in the second token minus one and allocates the array of zeros of that degree; otherwise
  the check of the knots fails.
\<close>

theorem header_decoding:
  assumes "str_split line = t1 # t2 # t3 # t4 # extra" "g t1 \<noteq> None" "g t3 \<noteq> None"
    and "degree obj = None" "coefs obj = None"
  shows "read_sph_stream f g obj [line] =
           (if length (knots obj) = str_count t4 CHR ''1''
            then Inr (obj\<lparr>degree := Some (int (str_count t2 CHR ''1'') - 1),
                          coefs := Some (zeros (length (knots obj)) 2
                                     (str_count t2 CHR ''1'') (str_count t2 CHR ''1''))\<rparr>)
            else Inl (AssertionError ''Wrong number of 1s in knots header'', obj))"
proof -
  note h = header_line_four [OF assms(1-3), of "start obj", unfolded self_start]
  show ?thesis
    by (simp add: read_sph_stream_Cons h assms(4,5))
qed

text \<open>The theorem on the bit string \<open>111\<close>, which gives degree 2.\<close>

theorem header_decoding_witness:
  "str_split ''2 111 1 1'' = ''2'' # ''111'' # ''1'' # ''1'' # [] \<and>
   example_int ''2'' \<noteq> None \<and> example_int ''1'' \<noteq> None \<and>
   degree one_knot = None \<and> coefs one_knot = None \<and>
   int (str_count ''111'' CHR ''1'') - 1 = 2 \<and>
   read_sph_stream example_float example_int one_knot [''2 111 1 1''] =
     (if length (knots one_knot) = str_count ''1'' CHR ''1''
      then Inr (one_knot\<lparr>degree := Some (int (str_count ''111'' CHR ''1'') - 1),
                  coefs := Some (zeros (length (knots one_knot)) 2
                             (str_count ''111'' CHR ''1'') (str_count ''111'' CHR ''1''))\<rparr>)
      else Inl (AssertionError ''Wrong number of 1s in knots header'', one_knot))"
proof -
  have s: "str_split ''2 111 1 1'' = ''2'' # ''111'' # ''1'' # ''1'' # []" by code_simp
  have i1: "example_int ''2'' \<noteq> None" by code_simp
  have i2: "example_int ''1'' \<noteq> None" by code_simp
  have d: "degree one_knot = None" by code_simp
  have c: "coefs one_knot = None" by code_simp
  have u: "int (str_count ''111'' CHR ''1'') - 1 = 2" by code_simp
  note r = header_decoding [OF s i1 i2 d c, of example_float]
  show ?thesis by (intro conjI s i1 i2 d c u r)
qed

section \<open>Entries whose order exceeds their degree\<close>

lemma running_mi_le:
  assumes "p < l * 2 + 1"
  shows "running_mi p \<le> l"
proof -
  from assms have "p + 1 \<le> 2 * l + 1" by simp
  then have "(p + 1) div 2 \<le> (2 * l + 1) div 2" by (rule div_le_mono)
  then show ?thesis by (simp add: running_mi_eq)
qed

lemma complete_group_frame:
  assumes "complete_group f st = Inr st'" "length (dataline st) = li st * 2 + 1" "k < q"
  shows "coef_at (self st') i j k q = coef_at (self st) i j k q"
proof -
  from complete_group_Inr [OF assms(1)] obtain obj d where
    d: "decode f (ri st) (li st) (self st) (running_mi 0) 0 (dataline st) = Inr obj"
    and s: "st' = (if int (li st + 1) > d
                  then st\<lparr>self := obj, li := 0, ri := ri st + 1, dataline := []\<rparr>
                  else st\<lparr>self := obj, li := li st + 1, dataline := []\<rparr>)"
    by blast
  from s have o: "self st' = obj" by (simp split: if_splits)
  have "coef_at obj i j k q = coef_at (self st) i j k q"
  proof (rule decode_frame [OF d])
    fix p assume "0 \<le> p" "p < 0 + length (dataline st)"
    then have "p < li st * 2 + 1" using assms(2) by simp
    then have "running_mi p \<le> li st" by (rule running_mi_le)
    with assms(3) show "\<not> (i = ri st \<and> j = component_at p \<and> k = li st \<and> q = running_mi p)"
      by auto
  qed
  with o show ?thesis by simp
qed

lemma complete_group_fields:
  assumes "complete_group f st = Inr st'"
  shows "knots (self st') = knots (self st)" "degree (self st') = degree (self st)"
    "inner_radius (self st') = inner_radius (self st)"
    "outer_radius (self st') = outer_radius (self st)"
proof -
  from complete_group_Inr [OF assms] obtain obj d where
    d: "decode f (ri st) (li st) (self st) (running_mi 0) 0 (dataline st) = Inr obj"
    and s: "st' = (if int (li st + 1) > d
                  then st\<lparr>self := obj, li := 0, ri := ri st + 1, dataline := []\<rparr>
                  else st\<lparr>self := obj, li := li st + 1, dataline := []\<rparr>)"
    by blast
  from s have o: "self st' = obj" by (simp split: if_splits)
  from decode_fields [OF d] o
  show "knots (self st') = knots (self st)" "degree (self st') = degree (self st)"
    "inner_radius (self st') = inner_radius (self st)"
    "outer_radius (self st') = outer_radius (self st)"
    by simp_all
qed

lemma body_line_Inr:
  assumes "body_line f st line = Inr st'"
  shows "(length (dataline st @ str_split line) < li st * 2 + 1 \<and>
            st' = st\<lparr>dataline := dataline st @ str_split line\<rparr>) \<or>
         (length (dataline st @ str_split line) = li st * 2 + 1 \<and>
            complete_group f (st\<lparr>dataline := dataline st @ str_split line\<rparr>) = Inr st')"
  using assms unfolding body_line_cases by (auto split: if_splits)

lemma body_line_frame:
  assumes "body_line f st line = Inr st'" "k < q"
  shows "coef_at (self st') i j k q = coef_at (self st) i j k q"
proof -
  from body_line_Inr [OF assms(1)] show ?thesis
  proof (elim disjE conjE)
    assume "st' = st\<lparr>dataline := dataline st @ str_split line\<rparr>"
    then show ?thesis by simp
  next
    assume l: "length (dataline st @ str_split line) = li st * 2 + 1"
      and c: "complete_group f (st\<lparr>dataline := dataline st @ str_split line\<rparr>) = Inr st'"
    from complete_group_frame [OF c _ assms(2), of i j] l show ?thesis by simp
  qed
qed

lemma body_line_fields:
  assumes "body_line f st line = Inr st'"
  shows "knots (self st') = knots (self st)" "degree (self st') = degree (self st)"
    "inner_radius (self st') = inner_radius (self st)"
    "outer_radius (self st') = outer_radius (self st)"
  using body_line_Inr [OF assms] complete_group_fields [of f "st\<lparr>dataline := dataline st @ str_split line\<rparr>" st']
  by auto

lemma body_lines_Cons:
  "header st \<noteq> None \<Longrightarrow>
     lines_loop f g st (line # rest) =
       (case body_line f st line of Inl e \<Rightarrow> Inl e | Inr st' \<Rightarrow> lines_loop f g st' rest)"
  by (cases "header st") simp_all

lemma body_lines_frame:
  assumes "header st \<noteq> None" "lines_loop f g st ls = Inr st'" "k < q"
  shows "coef_at (self st') i j k q = coef_at (self st) i j k q"
  using assms(1,2)
proof (induction ls arbitrary: st)
  case Nil
  then show ?case by simp
next
  case (Cons line rest)
  from Cons.prems obtain st1 where
    b: "body_line f st line = Inr st1" and r: "lines_loop f g st1 rest = Inr st'"
    by (auto split: sum.splits)
  from body_line_header [OF b] Cons.prems(1) have "header st1 \<noteq> None" by simp
  from Cons.IH [OF this r] body_line_frame [OF b assms(3), of i j] show ?case by simp
qed

lemma allocate_coefs_zero:
  "allocate_coefs obj0 = Inr obj1 \<Longrightarrow> coef_at obj1 i j k q \<in> {None, Some 0}"
  by (auto simp: allocate_coefs_def coef_at_def getitem_zeros split: option.splits if_splits)

lemma header_line_Inr:
  assumes "header_line g st line = Inr st'"
  shows "(coefs (self st) \<noteq> None \<and> st' = st\<lparr>header := Some (str_split line)\<rparr>) \<or>
         (coefs (self st) = None \<and>
            (\<exists>d obj1. allocate_coefs ((self st)\<lparr>degree := Some d\<rparr>) = Inr obj1 \<and>
               st' = st\<lparr>header := Some (str_split line), self := obj1\<rparr>))"
  using assms
  by (auto simp: header_line_def Let_def split: if_splits sum.splits)

text \<open>
  Claim C6. An array just allocated holds zero at every entry. A parse that returns writes no
  entry whose order index \<open>q\<close> exceeds its degree index \<open>k\<close>: in an object that had
  its array the entry is what it was before the parse, and in an object whose array the
  parse allocated it is zero (or outside the array).
\<close>

theorem upper_triangle_never_written:
  "(allocate_coefs obj0 = Inr obj1 \<longrightarrow> coef_at obj1 i j k q \<in> {None, Some 0}) \<and>
   (read_sph_stream f g obj fileobj = Inr obj' \<and> k < q \<longrightarrow>
      (coefs obj \<noteq> None \<longrightarrow> coef_at obj' i j k q = coef_at obj i j k q) \<and>
      (coefs obj = None \<longrightarrow> coef_at obj' i j k q \<in> {None, Some 0}))"
proof (intro conjI impI; (elim conjE)?)
  assume "allocate_coefs obj0 = Inr obj1"
  then show "coef_at obj1 i j k q \<in> {None, Some 0}" by (rule allocate_coefs_zero)
next
  assume r: "read_sph_stream f g obj fileobj = Inr obj'" and kq: "k < q"
    and c: "coefs obj \<noteq> None"
  show "coef_at obj' i j k q = coef_at obj i j k q"
  proof (cases fileobj)
    case Nil
    with r show ?thesis by (simp add: read_sph_stream_def start_def)
  next
    case (Cons line rest)
    with r obtain st1 st' where
      h: "header_line g (start obj) line = Inr st1"
      and l: "lines_loop f g st1 rest = Inr st'" and o: "obj' = self st'"
      by (auto simp: read_sph_stream_Cons split: sum.splits)
    from header_line_Inr [OF h] c have s1: "st1 = (start obj)\<lparr>header := Some (str_split line)\<rparr>"
      by (auto simp: self_start)
    then have "header st1 \<noteq> None" by simp
    from body_lines_frame [OF this l kq, of i j] s1 o show ?thesis by (simp add: self_start)
  qed
next
  assume r: "read_sph_stream f g obj fileobj = Inr obj'" and kq: "k < q"
    and c: "coefs obj = None"
  show "coef_at obj' i j k q \<in> {None, Some 0}"
  proof (cases fileobj)
    case Nil
    with r c show ?thesis by (simp add: read_sph_stream_def start_def coef_at_def)
  next
    case (Cons line rest)
    with r obtain st1 st' where
      h: "header_line g (start obj) line = Inr st1"
      and l: "lines_loop f g st1 rest = Inr st'" and o: "obj' = self st'"
      by (auto simp: read_sph_stream_Cons split: sum.splits)
    from header_line_Inr [OF h] c obtain d obj1 where
      a: "allocate_coefs (obj\<lparr>degree := Some d\<rparr>) = Inr obj1"
      and s1: "st1 = (start obj)\<lparr>header := Some (str_split line), self := obj1\<rparr>"
      by (auto simp: self_start)
    from s1 have "header st1 \<noteq> None" by simp
    from body_lines_frame [OF this l kq, of i j] s1 o
    have "coef_at obj' i j k q = coef_at obj1 i j k q" by simp
    with allocate_coefs_zero [OF a, of i j k q] show ?thesis by simp
  qed
qed

text \<open>
  The theorem on an allocation, on the object of two knots that has its array, and on the
  object of one knot whose array the parse allocates.
\<close>

theorem upper_triangle_never_written_witness:
  "allocate_coefs (one_knot\<lparr>degree := Some 1\<rparr>)
     = Inr (one_knot\<lparr>degree := Some 1, coefs := Some (zeros 1 2 2 2)\<rparr>) \<and>
   coef_at (one_knot\<lparr>degree := Some 1, coefs := Some (zeros 1 2 2 2)\<rparr>) 0 0 0 1
     \<in> {None, Some 0} \<and>
   read_sph_stream example_float example_int two_knots two_knots_stream = Inr two_knots_read \<and>
   (0 :: nat) < 1 \<and> coefs two_knots \<noteq> None \<and>
   coef_at two_knots_read 1 0 0 1 = coef_at two_knots 1 0 0 1 \<and>
   read_sph_stream example_float example_int one_knot one_knot_stream = Inr one_knot_read \<and>
   coefs one_knot = None \<and>
   coef_at one_knot_read 0 1 0 1 \<in> {None, Some 0}"
proof -
  have a: "allocate_coefs (one_knot\<lparr>degree := Some 1\<rparr>)
     = Inr (one_knot\<lparr>degree := Some 1, coefs := Some (zeros 1 2 2 2)\<rparr>)" by code_simp
  have r2: "read_sph_stream example_float example_int two_knots two_knots_stream
     = Inr two_knots_read" by code_simp
  have r1: "read_sph_stream example_float example_int one_knot one_knot_stream
     = Inr one_knot_read" by code_simp
  have kq: "(0 :: nat) < 1" by simp
  have c2: "coefs two_knots \<noteq> None" by code_simp
  have c1: "coefs one_knot = None" by code_simp
  note n1 = upper_triangle_never_written [where i = 0 and j = 0 and k = 0 and q = 1,
      THEN conjunct1, THEN mp, OF a]
  note n2 = upper_triangle_never_written [where i = 1 and j = 0,
      THEN conjunct2, THEN mp, OF conjI [OF r2 kq], THEN conjunct1, THEN mp, OF c2]
  note n3 = upper_triangle_never_written [where i = 0 and j = 1,
      THEN conjunct2, THEN mp, OF conjI [OF r1 kq], THEN conjunct2, THEN mp, OF c1]
  show ?thesis by (intro conjI a n1 r2 kq c2 n2 r1 c1 n3)
qed

section \<open>Invariants of the parser\<close>

lemma consistent_in_bounds:
  assumes "consistent obj" "coefs obj \<noteq> None"
  shows "in_bounds obj"
proof -
  from assms obtain a d where
    h: "coefs obj = Some a" "degree obj = Some d" "- 1 \<le> d"
       "has_shape (length (knots obj)) 2 (nat (d + 1)) (nat (d + 1)) a"
    by (auto simp: consistent_def split: option.splits)
  have "coef_at obj i j k l \<noteq> None \<longleftrightarrow>
          i < length (knots obj) \<and> j < 2 \<and> int k \<le> d \<and> int l \<le> d" for i j k l
    using getitem_has_shape [OF h(4), of i j k l] h(1,3) by (auto simp: coef_at_def)
  with h(2,3) show ?thesis unfolding in_bounds_def by blast
qed

lemma allocate_coefs_in_bounds:
  assumes "allocate_coefs obj = Inr obj1"
  shows "in_bounds obj1"
proof -
  from assms obtain d where
    h: "degree obj = Some d" "- 1 \<le> d"
       "obj1 = obj\<lparr>coefs := Some (zeros (length (knots obj)) 2 (nat (d + 1)) (nat (d + 1)))\<rparr>"
    by (auto simp: allocate_coefs_def split: option.splits if_splits)
  have "coef_at obj1 i j k l \<noteq> None \<longleftrightarrow>
          i < length (knots obj1) \<and> j < 2 \<and> int k \<le> d \<and> int l \<le> d" for i j k l
    using h(2) by (auto simp: h(3) coef_at_def getitem_zeros)
  moreover have "degree obj1 = Some d" by (simp add: h(1,3))
  ultimately show ?thesis using h(2) unfolding in_bounds_def by blast
qed

lemma store_dom:
  assumes "store f obj i j k l c = Inr obj'"
  shows "(coef_at obj' i' j' k' l' = None) = (coef_at obj i' j' k' l' = None)"
proof -
  from store_Inr [OF assms] obtain v a a' where
    h: "f c = Some v" "coefs obj = Some a" "setitem a i j k l v = Some a'"
    by blast
  from h(3) have "getitem a i j k l \<noteq> None" using setitem_None_iff [of a i j k l v] by auto
  with h(2) have "coef_at obj i j k l \<noteq> None" by (simp add: coef_at_def)
  with store_coef_at [OF assms, of i' j' k' l'] h(1) show ?thesis by (auto split: if_splits)
qed

lemma decode_dom:
  "decode f r l obj (running_mi m) m toks = Inr obj' \<Longrightarrow>
     (coef_at obj' i' j' k' l' = None) = (coef_at obj i' j' k' l' = None)"
proof (induction toks arbitrary: obj m)
  case Nil
  then show ?case by simp
next
  case (Cons c rest)
  from Cons.prems obtain obj1 where
    s: "store f obj r (component_at m) l (running_mi m) c = Inr obj1"
    and d: "decode f r l obj1 (running_mi (Suc m)) (Suc m) rest = Inr obj'"
    unfolding decode_Cons by (auto split: sum.splits)
  from Cons.IH [OF d] store_dom [OF s, of i' j' k' l'] show ?case by simp
qed

lemma decode_in_bounds:
  assumes "decode f r l obj (running_mi m) m toks = Inr obj'" "in_bounds obj"
  shows "in_bounds obj'"
  using assms(2) decode_dom [OF assms(1)] decode_fields [OF assms(1)]
  unfolding in_bounds_def by simp

lemma complete_group_in_bounds:
  assumes "complete_group f st = Inr st'" "in_bounds (self st)"
  shows "in_bounds (self st')"
proof -
  from complete_group_Inr [OF assms(1)] obtain obj d where
    d: "decode f (ri st) (li st) (self st) (running_mi 0) 0 (dataline st) = Inr obj"
    and s: "st' = (if int (li st + 1) > d
                  then st\<lparr>self := obj, li := 0, ri := ri st + 1, dataline := []\<rparr>
                  else st\<lparr>self := obj, li := li st + 1, dataline := []\<rparr>)"
    by blast
  from s have "self st' = obj" by (simp split: if_splits)
  with decode_in_bounds [OF d assms(2)] show ?thesis by simp
qed

lemma body_line_in_bounds:
  assumes "body_line f st line = Inr st'" "in_bounds (self st)"
  shows "in_bounds (self st')"
  using body_line_Inr [OF assms(1)] assms(2)
    complete_group_in_bounds [of f "st\<lparr>dataline := dataline st @ str_split line\<rparr>" st']
  by auto

lemma body_line_pending:
  assumes "body_line f st line = Inr st'"
  shows "length (dataline st') < li st' * 2 + 1"
  using body_line_Inr [OF assms]
    complete_group_dataline [of f "st\<lparr>dataline := dataline st @ str_split line\<rparr>" st']
  by auto

lemma header_line_in_bounds:
  assumes "header_line g st line = Inr st'" "coefs (self st) \<noteq> None \<longrightarrow> in_bounds (self st)"
  shows "in_bounds (self st')"
  using header_line_Inr [OF assms(1)] assms(2) allocate_coefs_in_bounds by auto

lemma header_line_pending:
  assumes "header_line g st line = Inr st'"
  shows "dataline st' = dataline st" "li st' = li st" "ri st' = ri st"
  using header_line_Inr [OF assms] by auto

text \<open>The invariant of the loop once the header has been read.\<close>

lemma body_lines_invariant:
  assumes "header st \<noteq> None" "in_bounds (self st)" "length (dataline st) < li st * 2 + 1"
    and "lines_loop f g st ls = Inr st'"
  shows "header st' = header st \<and> in_bounds (self st') \<and>
         length (dataline st') < li st' * 2 + 1 \<and>
         knots (self st') = knots (self st) \<and> degree (self st') = degree (self st)"
  using assms
proof (induction ls arbitrary: st)
  case Nil
  then show ?case by simp
next
  case (Cons line rest)
  from Cons.prems(1,4) obtain st1 where
    b: "body_line f st line = Inr st1" and r: "lines_loop f g st1 rest = Inr st'"
    by (auto split: sum.splits)
  have h1: "header st1 \<noteq> None" using body_line_header [OF b] Cons.prems(1) by simp
  have i1: "in_bounds (self st1)" using body_line_in_bounds [OF b Cons.prems(2)] .
  have p1: "length (dataline st1) < li st1 * 2 + 1" using body_line_pending [OF b] .
  from Cons.IH [OF h1 i1 p1 r] body_line_header [OF b] body_line_fields [OF b]
  show ?case by simp
qed

lemma lines_loop_invariant:
  assumes "consistent obj" "lines_loop f g (start obj) ls = Inr st" "header st \<noteq> None"
  shows "in_bounds (self st) \<and> length (dataline st) < li st * 2 + 1 \<and>
         knots (self st) = knots obj"
proof (cases ls)
  case Nil
  with assms(2) have "st = start obj" by simp
  with assms(3) show ?thesis by (simp add: start_def)
next
  case (Cons line rest)
  with assms(2) have "lines_loop f g (start obj) (line # rest) = Inr st" by simp
  then obtain st1 where
    h: "header_line g (start obj) line = Inr st1" and r: "lines_loop f g st1 rest = Inr st"
    unfolding lines_loop_start_Cons by (auto split: sum.splits)
  have "coefs obj \<noteq> None \<longrightarrow> in_bounds obj" using consistent_in_bounds [OF assms(1)] by blast
  then have i1: "in_bounds (self st1)"
    using header_line_in_bounds [OF h] by (simp add: self_start)
  have h1: "header st1 \<noteq> None" using header_line_Inr_header [OF h] by simp
  have p1: "length (dataline st1) < li st1 * 2 + 1"
    using header_line_pending [OF h] by (simp add: start_def)
  have k1: "knots (self st1) = knots obj"
    using header_line_Inr [OF h] by (auto simp: self_start allocate_coefs_def split: option.splits if_splits)
  from body_lines_invariant [OF h1 i1 p1 r] k1 show ?thesis by simp
qed

section \<open>The buffer of a group\<close>

lemma component_at_less: "component_at p < 2"
  by (simp add: component_at_def)

lemma complete_group_succeeds:
  assumes "in_bounds (self st)" "ri st < length (knots (self st))"
    and "degree (self st) = Some d" "int (li st) \<le> d"
    and "length (dataline st) = li st * 2 + 1"
    and "\<And>t. t \<in> set (dataline st) \<Longrightarrow> f t \<noteq> None"
  shows "\<exists>obj'. decode f (ri st) (li st) (self st) (running_mi 0) 0 (dataline st) = Inr obj' \<and>
           complete_group f st =
             Inr (if int (li st + 1) > d
                  then st\<lparr>self := obj', li := 0, ri := ri st + 1, dataline := []\<rparr>
                  else st\<lparr>self := obj', li := li st + 1, dataline := []\<rparr>)"
proof -
  from assms(1,3) have box: "coef_at (self st) i j k l \<noteq> None \<longleftrightarrow>
      i < length (knots (self st)) \<and> j < 2 \<and> int k \<le> d \<and> int l \<le> d" for i j k l
    unfolding in_bounds_def by auto
  have "\<exists>obj'. decode f (ri st) (li st) (self st) (running_mi 0) 0 (dataline st) = Inr obj'"
  proof (rule decode_succeeds)
    fix t assume "t \<in> set (dataline st)"
    then show "f t \<noteq> None" by (rule assms(6))
  next
    fix p assume "0 \<le> p" "p < 0 + length (dataline st)"
    then have "p < li st * 2 + 1" using assms(5) by simp
    then have "running_mi p \<le> li st" by (rule running_mi_le)
    then have "int (running_mi p) \<le> d" using assms(4) by simp
    then show "coef_at (self st) (ri st) (component_at p) (li st) (running_mi p) \<noteq> None"
      unfolding box using assms(2,4) component_at_less by simp
  qed
  then obtain obj' where
    d: "decode f (ri st) (li st) (self st) (running_mi 0) 0 (dataline st) = Inr obj'" ..
  from decode_fields [OF d] assms(3) have "degree obj' = Some d" by simp
  with d assms(2) have "complete_group f st =
             Inr (if int (li st + 1) > d
                  then st\<lparr>self := obj', li := 0, ri := ri st + 1, dataline := []\<rparr>
                  else st\<lparr>self := obj', li := li st + 1, dataline := []\<rparr>)"
    by (simp add: complete_group_def)
  with d show ?thesis by blast
qed

text \<open>
  Claim C4. Let the lines read so far, header included, leave the loop in a state \<open>st\<close>.
  If the next line brings the buffer beyond \<open>li * 2 + 1\<close> tokens, parsing fails with
  the \<open>AssertionError\<close> \<open>Too much data\<close>, whatever follows. If it brings the buffer to
  exactly \<open>li * 2 + 1\<close> tokens, for an object of consistent shape, a group \<open>(ri, li)\<close>
  of the object (\<open>ri\<close> below the number of knots, \<open>li\<close> at most the degree) and tokens
  that \<open>float\<close> accepts, the line is read without error, the buffer is empty afterwards
  and every token of the group is in the array.
\<close>

theorem group_overrun_and_completion:
  assumes "lines_loop f g (start obj) ls = Inr st" "header st \<noteq> None"
  shows "(li st * 2 + 1 < length (dataline st @ str_split line) \<longrightarrow>
            read_sph_stream f g obj (ls @ line # rest)
              = Inl (AssertionError ''Too much data'', self st)) \<and>
         (consistent obj \<and>
          length (dataline st @ str_split line) = li st * 2 + 1 \<and>
          ri st < length (knots (self st)) \<and>
          (\<exists>d. degree (self st) = Some d \<and> int (li st) \<le> d) \<and>
          (\<forall>t \<in> set (dataline st @ str_split line). f t \<noteq> None) \<longrightarrow>
            (\<exists>st'. lines_loop f g (start obj) (ls @ [line]) = Inr st' \<and>
               dataline st' = [] \<and>
               (\<forall>p < li st * 2 + 1.
                  coef_at (self st') (ri st) (component_at p) (li st) (running_mi p)
                    = f ((dataline st @ str_split line) ! p))))"
proof (intro conjI impI; (elim conjE exE)?)
  from assms(2) obtain h where hs: "header st = Some h" by auto
  assume "li st * 2 + 1 < length (dataline st @ str_split line)"
  then have "body_line f st line = Inl (AssertionError ''Too much data'', self st)"
    by (rule body_line_long)
  then show "read_sph_stream f g obj (ls @ line # rest)
              = Inl (AssertionError ''Too much data'', self st)"
    by (simp add: read_sph_stream_def lines_loop_append assms(1) hs)
next
  fix d
  from assms(2) obtain h where hs: "header st = Some h" by auto
  assume co: "consistent obj"
    and len: "length (dataline st @ str_split line) = li st * 2 + 1"
    and r: "ri st < length (knots (self st))"
    and d: "degree (self st) = Some d" "int (li st) \<le> d"
    and fl: "\<forall>t \<in> set (dataline st @ str_split line). f t \<noteq> None"
  let ?st1 = "st\<lparr>dataline := dataline st @ str_split line\<rparr>"
  from lines_loop_invariant [OF co assms] have ib: "in_bounds (self ?st1)" by simp
  have "\<exists>obj'. decode f (ri ?st1) (li ?st1) (self ?st1) (running_mi 0) 0 (dataline ?st1) = Inr obj' \<and>
           complete_group f ?st1 =
             Inr (if int (li ?st1 + 1) > d
                  then ?st1\<lparr>self := obj', li := 0, ri := ri ?st1 + 1, dataline := []\<rparr>
                  else ?st1\<lparr>self := obj', li := li ?st1 + 1, dataline := []\<rparr>)"
  proof (rule complete_group_succeeds [OF ib])
    show "ri ?st1 < length (knots (self ?st1))" using r by simp
    show "degree (self ?st1) = Some d" using d(1) by simp
    show "int (li ?st1) \<le> d" using d(2) by simp
    show "length (dataline ?st1) = li ?st1 * 2 + 1" using len by simp
    show "f t \<noteq> None" if "t \<in> set (dataline ?st1)" for t using that fl by simp
  qed
  then obtain obj' st' where
    dec: "decode f (ri st) (li st) (self st) (running_mi 0) 0 (dataline st @ str_split line) = Inr obj'"
    and s': "st' = (if int (li st + 1) > d
                  then ?st1\<lparr>self := obj', li := 0, ri := ri st + 1, dataline := []\<rparr>
                  else ?st1\<lparr>self := obj', li := li st + 1, dataline := []\<rparr>)"
    and cg: "complete_group f ?st1 = Inr st'"
    by auto
  from body_line_exact [OF len, of f] cg have bl: "body_line f st line = Inr st'" by simp
  have ll: "lines_loop f g (start obj) (ls @ [line]) = Inr st'"
    by (simp add: lines_loop_append assms(1) hs bl)
  from s' have o: "self st' = obj'" and dl: "dataline st' = []" by (simp_all split: if_splits)
  have "coef_at obj' (ri st) (component_at p) (li st) (running_mi p)
          = f ((dataline st @ str_split line) ! p)" if "p < li st * 2 + 1" for p
    using decode_written [OF dec, of p] that len by simp
  with ll dl o show "\<exists>st'. lines_loop f g (start obj) (ls @ [line]) = Inr st' \<and>
               dataline st' = [] \<and>
               (\<forall>p < li st * 2 + 1.
                  coef_at (self st') (ri st) (component_at p) (li st) (running_mi p)
                    = f ((dataline st @ str_split line) ! p))"
    by auto
qed

text \<open>
  The theorem after the header of the object of two knots: the line \<open>0.5 0.1\<close> is too
  much for the group of degree 0, the line \<open>0.5\<close> completes it.
\<close>

theorem group_overrun_and_completion_witness:
  "consistent two_knots \<and>
   lines_loop example_float example_int (start two_knots) [''1 11 2 11'']
     = Inr two_knots_header_read \<and>
   header two_knots_header_read \<noteq> None \<and>
   li two_knots_header_read * 2 + 1
     < length (dataline two_knots_header_read @ str_split ''0.5 0.1'') \<and>
   read_sph_stream example_float example_int two_knots
       ([''1 11 2 11''] @ ''0.5 0.1'' # [''0.2 0.3''])
     = Inl (AssertionError ''Too much data'', self two_knots_header_read) \<and>
   length (dataline two_knots_header_read @ str_split ''0.5'')
     = li two_knots_header_read * 2 + 1 \<and>
   ri two_knots_header_read < length (knots (self two_knots_header_read)) \<and>
   (\<exists>d. degree (self two_knots_header_read) = Some d \<and> int (li two_knots_header_read) \<le> d) \<and>
   list_all (\<lambda>t. example_float t \<noteq> None)
     (dataline two_knots_header_read @ str_split ''0.5'') \<and>
   (\<exists>st'. lines_loop example_float example_int (start two_knots) ([''1 11 2 11''] @ [''0.5''])
            = Inr st' \<and>
      dataline st' = [] \<and>
      (\<forall>p < li two_knots_header_read * 2 + 1.
         coef_at (self st') (ri two_knots_header_read) (component_at p)
             (li two_knots_header_read) (running_mi p)
           = example_float ((dataline two_knots_header_read @ str_split ''0.5'') ! p)))"
proof -
  have c: "consistent two_knots" by code_simp
  have l: "lines_loop example_float example_int (start two_knots) [''1 11 2 11'']
     = Inr two_knots_header_read" by code_simp
  have h: "header two_knots_header_read \<noteq> None" by code_simp
  have o: "li two_knots_header_read * 2 + 1
     < length (dataline two_knots_header_read @ str_split ''0.5 0.1'')" by code_simp
  have e1: "length (dataline two_knots_header_read @ str_split ''0.5'')
     = li two_knots_header_read * 2 + 1" by code_simp
  have e2: "ri two_knots_header_read < length (knots (self two_knots_header_read))"
    by code_simp
  have "degree (self two_knots_header_read) = Some 1 \<and> int (li two_knots_header_read) \<le> 1"
    by code_simp
  then have e3: "\<exists>d. degree (self two_knots_header_read) = Some d \<and>
      int (li two_knots_header_read) \<le> d" ..
  have e4': "list_all (\<lambda>t. example_float t \<noteq> None)
     (dataline two_knots_header_read @ str_split ''0.5'')" by code_simp
  then have e4: "\<forall>t \<in> set (dataline two_knots_header_read @ str_split ''0.5'').
      example_float t \<noteq> None" by (simp only: list_all_iff)
  note t = group_overrun_and_completion [OF l h]
  note n1 = t [THEN conjunct1, THEN mp, OF o]
  note n2 = t [THEN conjunct2, THEN mp, OF conjI [OF c conjI [OF e1 conjI [OF e2 conjI [OF e3 e4]]]]]
  show ?thesis by (intro conjI c l h o n1 e1 e2 e3 e4' n2)
qed

section \<open>The scenario, and where the tokens of a group go\<close>

lemma length_DEFAULT_KNOTS: "length DEFAULT_KNOTS = 21"
  by (simp add: DEFAULT_KNOTS_def)

lemma init_degree_only:
  "- 1 \<le> d \<Longrightarrow>
     init f g None (Some d) kn inner outer =
       Inr \<lparr>knots = (case kn of None \<Rightarrow> DEFAULT_KNOTS | Some ks \<Rightarrow> ks), degree = Some d,
            coefs = Some (zeros (length (case kn of None \<Rightarrow> DEFAULT_KNOTS | Some ks \<Rightarrow> ks)) 2
                      (nat (d + 1)) (nat (d + 1))),
            inner_radius = inner, outer_radius = outer\<rparr>"
  by (simp add: init_def allocate_coefs_def)

lemma scenario_parse:
  assumes "f ''0.5'' = Some a" "f ''0.1'' = Some b" "f ''0.2'' = Some c" "f ''0.3'' = Some d"
    and "g ''1'' \<noteq> None" "g ''21'' \<noteq> None"
  shows "read_sph_stream f g
     \<lparr>knots = DEFAULT_KNOTS, degree = Some 1, coefs = Some (zeros 21 2 2 2),
       inner_radius = inner, outer_radius = outer\<rparr> scenario_stream
   = Inr \<lparr>knots = DEFAULT_KNOTS, degree = Some 1,
       coefs = Some (replicate 21 [[[a, 0], [b, c]], [[0, 0], [0, d]]]),
       inner_radius = inner, outer_radius = outer\<rparr>"
proof -
  have sp1: "str_split ''0.5'' = [''0.5'']" by code_simp
  have sp2: "str_split ''0.1 0.2 0.3'' = [''0.1'', ''0.2'', ''0.3'']" by code_simp
  have sp3: "str_split ''1 11 21 111111111111111111111''
               = [''1'', ''11'', ''21'', ''111111111111111111111'']" by code_simp
  have sc1: "str_count ''11'' CHR ''1'' = 2" by code_simp
  have sc2: "str_count ''111111111111111111111'' CHR ''1'' = 21" by code_simp
  from assms(5,6) obtain n1 n2 where gi: "g ''1'' = Some n1" "g ''21'' = Some n2" by auto
  show ?thesis
    by (simp add: read_sph_stream_def start_def scenario_stream_def header_line_def body_line_def
        complete_group_def sp1 sp2 sp3 gi sc1 sc2 length_DEFAULT_KNOTS assms(1-4)
        store_def setitem_def upd_def zeros_def Let_def eval_nat_numeral)
qed

lemma scenario_cells:
  assumes "k < 21"
  shows "getitem (replicate 21 [[[a, z], [b, c]], [[z, z], [z, d]]]) k 0 0 0 = Some a \<and>
    getitem (replicate 21 [[[a, z], [b, c]], [[z, z], [z, d]]]) k 0 1 0 = Some b \<and>
    getitem (replicate 21 [[[a, z], [b, c]], [[z, z], [z, d]]]) k 0 1 1 = Some c \<and>
    getitem (replicate 21 [[[a, z], [b, c]], [[z, z], [z, d]]]) k 1 1 1 = Some d"
  using assms by (simp add: getitem_def)

lemma complete_group_self:
  assumes "complete_group f st = Inr st'"
  shows "decode f (ri st) (li st) (self st) (running_mi 0) 0 (dataline st) = Inr (self st')"
proof -
  from complete_group_Inr [OF assms] obtain obj d where
    d: "decode f (ri st) (li st) (self st) (running_mi 0) 0 (dataline st) = Inr obj"
    and s: "st' = (if int (li st + 1) > d
                  then st\<lparr>self := obj, li := 0, ri := ri st + 1, dataline := []\<rparr>
                  else st\<lparr>self := obj, li := li st + 1, dataline := []\<rparr>)"
    by blast
  from s have "self st' = obj" by (simp split: if_splits)
  with d show ?thesis by simp
qed

lemma group_written:
  assumes "lines_loop f g (start obj0) ls = Inr st" "header st \<noteq> None"
    and "length (dataline st @ str_split line) = li st * 2 + 1"
    and "lines_loop f g (start obj0) (ls @ [line]) = Inr st'"
    and "p < li st * 2 + 1"
  shows "coef_at (self st') (ri st) (component_at p) (li st) (running_mi p)
           = f ((dataline st @ str_split line) ! p)"
proof -
  from assms(2) obtain h where hs: "header st = Some h" by auto
  from assms(4) have "body_line f st line = Inr st'"
    by (simp add: lines_loop_append assms(1) hs split: sum.splits)
  with body_line_exact [OF assms(3), of f]
  have cg: "complete_group f (st\<lparr>dataline := dataline st @ str_split line\<rparr>) = Inr st'" by simp
  from complete_group_self [OF cg]
  have dec: "decode f (ri st) (li st) (self st) (running_mi 0) 0 (dataline st @ str_split line)
               = Inr (self st')" by simp
  from decode_written [OF dec, of p] assms(3,5) show ?thesis by simp
qed

text \<open>
  Claim C1. Whatever values \<open>float\<close> gives the tokens \<open>0.5\<close>, \<open>0.1\<close>, \<open>0.2\<close> and
  \<open>0.3\<close>: the object constructed with degree 1 and the default knots has 21 knots, and
  parsing the stream of the scenario into it returns an object in which, for every knot
  \<open>k\<close>, the entries \<open>[k,0,0,0]\<close>, \<open>[k,0,1,0]\<close>, \<open>[k,0,1,1]\<close> and \<open>[k,1,1,1]\<close>
  hold the values of these four tokens. In general, when a line completes the group of
  \<open>li * 2 + 1\<close> tokens of \<open>(ri, li)\<close>, the token at position \<open>p\<close> of the group is
  afterwards in the array at knot \<open>ri\<close>, degree \<open>li\<close>, at the component of the
  position (real at position 0 and at odd positions, imaginary at the others) and at the
  running order index of the position.
\<close>

theorem scenario_and_group_rule:
  "(f ''0.5'' = Some a \<and> f ''0.1'' = Some b \<and> f ''0.2'' = Some c \<and> f ''0.3'' = Some d \<and>
    g ''1'' \<noteq> None \<and> g ''21'' \<noteq> None \<longrightarrow>
      (\<exists>obj obj'. init f g None (Some 1) None inner outer = Inr obj \<and>
         knots obj = DEFAULT_KNOTS \<and> degree obj = Some 1 \<and>
         read_sph_stream f g obj scenario_stream = Inr obj' \<and>
         (\<forall>k < 21. coef_at obj' k 0 0 0 = Some a \<and> coef_at obj' k 0 1 0 = Some b \<and>
                   coef_at obj' k 0 1 1 = Some c \<and> coef_at obj' k 1 1 1 = Some d))) \<and>
   (lines_loop f g (start obj0) ls = Inr st \<and> header st \<noteq> None \<and>
    length (dataline st @ str_split line) = li st * 2 + 1 \<and>
    lines_loop f g (start obj0) (ls @ [line]) = Inr st' \<and> p < li st * 2 + 1 \<longrightarrow>
      coef_at (self st') (ri st) (component_at p) (li st) (running_mi p)
        = f ((dataline st @ str_split line) ! p))"
proof (intro conjI impI; (elim conjE)?)
  assume fl: "f ''0.5'' = Some a" "f ''0.1'' = Some b" "f ''0.2'' = Some c" "f ''0.3'' = Some d"
    and gi: "g ''1'' \<noteq> None" "g ''21'' \<noteq> None"
  let ?obj = "\<lparr>knots = DEFAULT_KNOTS, degree = Some 1, coefs = Some (zeros 21 2 2 2),
       inner_radius = inner, outer_radius = outer\<rparr> :: 'a pyrts"
  let ?obj' = "\<lparr>knots = DEFAULT_KNOTS, degree = Some 1,
       coefs = Some (replicate 21 [[[a, 0], [b, c]], [[0, 0], [0, d]]]),
       inner_radius = inner, outer_radius = outer\<rparr> :: 'a pyrts"
  have i: "init f g None (Some 1) None inner outer = Inr ?obj"
    using init_degree_only [of 1 f g None inner outer]
    by (simp add: length_DEFAULT_KNOTS)
  have r: "read_sph_stream f g ?obj scenario_stream = Inr ?obj'"
    by (rule scenario_parse [OF fl gi])
  have "\<forall>k < 21. coef_at ?obj' k 0 0 0 = Some a \<and> coef_at ?obj' k 0 1 0 = Some b \<and>
                   coef_at ?obj' k 0 1 1 = Some c \<and> coef_at ?obj' k 1 1 1 = Some d"
    using scenario_cells [of _ a 0 b c d] by (simp only: coef_at_def pyrts.simps option.case) blast
  with i r show "\<exists>obj obj'. init f g None (Some 1) None inner outer = Inr obj \<and>
         knots obj = DEFAULT_KNOTS \<and> degree obj = Some 1 \<and>
         read_sph_stream f g obj scenario_stream = Inr obj' \<and>
         (\<forall>k < 21. coef_at obj' k 0 0 0 = Some a \<and> coef_at obj' k 0 1 0 = Some b \<and>
                   coef_at obj' k 0 1 1 = Some c \<and> coef_at obj' k 1 1 1 = Some d)"
    by (intro exI [of _ ?obj] exI [of _ ?obj']) simp
next
  assume "lines_loop f g (start obj0) ls = Inr st" "header st \<noteq> None"
    "length (dataline st @ str_split line) = li st * 2 + 1"
    "lines_loop f g (start obj0) (ls @ [line]) = Inr st'" "p < li st * 2 + 1"
  then show "coef_at (self st') (ri st) (component_at p) (li st) (running_mi p)
        = f ((dataline st @ str_split line) ! p)"
    by (rule group_written)
qed

text \<open>
  The theorem with the conversions of the examples, and on the second group of the first
  knot of the object of two knots: position 2 is the imaginary part at order 1.
\<close>

theorem scenario_and_group_rule_witness:
  "example_float ''0.5'' = Some (1 / 2) \<and> example_float ''0.1'' = Some (1 / 10) \<and>
   example_float ''0.2'' = Some (1 / 5) \<and> example_float ''0.3'' = Some (3 / 10) \<and>
   example_int ''1'' \<noteq> None \<and> example_int ''21'' \<noteq> None \<and>
   (\<exists>obj obj'. init example_float example_int None (Some 1) None 3480 6346.691 = Inr obj \<and>
      knots obj = DEFAULT_KNOTS \<and> degree obj = Some 1 \<and>
      read_sph_stream example_float example_int obj scenario_stream = Inr obj' \<and>
      (\<forall>k < 21. coef_at obj' k 0 0 0 = Some (1 / 2) \<and> coef_at obj' k 0 1 0 = Some (1 / 10) \<and>
                coef_at obj' k 0 1 1 = Some (1 / 5) \<and> coef_at obj' k 1 1 1 = Some (3 / 10))) \<and>
   lines_loop example_float example_int (start two_knots) [''1 11 2 11'', ''0.5'']
     = Inr two_knots_group0_read \<and>
   header two_knots_group0_read \<noteq> None \<and>
   length (dataline two_knots_group0_read @ str_split ''0.1 0.2 0.3'')
     = li two_knots_group0_read * 2 + 1 \<and>
   lines_loop example_float example_int (start two_knots)
       ([''1 11 2 11'', ''0.5''] @ [''0.1 0.2 0.3''])
     = Inr two_knots_group1_read \<and>
   2 < li two_knots_group0_read * 2 + 1 \<and>
   component_at 2 = 1 \<and> running_mi 2 = 1 \<and>
   coef_at (self two_knots_group1_read) (ri two_knots_group0_read) (component_at 2)
       (li two_knots_group0_read) (running_mi 2)
     = example_float ((dataline two_knots_group0_read @ str_split ''0.1 0.2 0.3'') ! 2)"
proof -
  have f1: "example_float ''0.5'' = Some (1 / 2)" by code_simp
  have f2: "example_float ''0.1'' = Some (1 / 10)" by code_simp
  have f3: "example_float ''0.2'' = Some (1 / 5)" by code_simp
  have f4: "example_float ''0.3'' = Some (3 / 10)" by code_simp
  have g1: "example_int ''1'' \<noteq> None" by code_simp
  have g2: "example_int ''21'' \<noteq> None" by code_simp
  have l0: "lines_loop example_float example_int (start two_knots) [''1 11 2 11'', ''0.5'']
     = Inr two_knots_group0_read" by code_simp
  have h0: "header two_knots_group0_read \<noteq> None" by code_simp
  have e0: "length (dataline two_knots_group0_read @ str_split ''0.1 0.2 0.3'')
     = li two_knots_group0_read * 2 + 1" by code_simp
  have l1: "lines_loop example_float example_int (start two_knots)
       ([''1 11 2 11'', ''0.5''] @ [''0.1 0.2 0.3''])
     = Inr two_knots_group1_read" by code_simp
  have p0: "2 < li two_knots_group0_read * 2 + 1" by code_simp
  have c2: "component_at 2 = 1" by code_simp
  have m2: "running_mi 2 = 1" by code_simp
  note t = scenario_and_group_rule [where f = example_float and g = example_int]
  note n1 = t [THEN conjunct1, THEN mp,
      OF conjI [OF f1 conjI [OF f2 conjI [OF f3 conjI [OF f4 conjI [OF g1 g2]]]]]]
  note n2 = t [THEN conjunct2, THEN mp,
      OF conjI [OF l0 conjI [OF h0 conjI [OF e0 conjI [OF l1 p0]]]]]
  show ?thesis by (intro conjI f1 f2 f3 f4 g1 g2 n1 l0 h0 e0 l1 p0 c2 m2 n2)
qed

section \<open>The end of the stream\<close>

lemma body_line_cong:
  "str_split l = str_split l' \<Longrightarrow> body_line f st l = body_line f st l'"
  by (simp add: body_line_def)

lemma body_line_not_long:
  "body_line f st line = Inr st' \<Longrightarrow> length (dataline st @ str_split line) \<le> li st * 2 + 1"
  using body_line_long [of st line f] by (cases "li st * 2 + 1 < length (dataline st @ str_split line)") auto

lemma body_line_prefix:
  assumes "body_line f st l = Inr st1" "prefix (str_split l') (str_split l)"
  shows "\<exists>st2. body_line f st l' = Inr st2"
proof (cases "length (dataline st @ str_split l') < li st * 2 + 1")
  case True
  then show ?thesis by (simp add: body_line_short)
next
  case False
  from assms(2) have le: "length (str_split l') \<le> length (str_split l)" by (rule prefix_length_le)
  with body_line_not_long [OF assms(1)] False
  have "length (str_split l') = length (str_split l)" by simp
  with assms(2) have "str_split l' = str_split l"
    by (auto simp: prefix_def)
  then have "body_line f st l' = body_line f st l" by (rule body_line_cong)
  with assms(1) show ?thesis by simp
qed

lemma read_sph_stream_Inr:
  "read_sph_stream f g obj fileobj = Inr obj' \<Longrightarrow>
     \<exists>st. lines_loop f g (start obj) fileobj = Inr st \<and> obj' = self st"
  by (cases "lines_loop f g (start obj) fileobj") (simp_all add: read_sph_stream_def)

lemma lines_loop_append_Inr:
  assumes "lines_loop f g st (xs @ ys) = Inr st'"
  shows "\<exists>st1. lines_loop f g st xs = Inr st1 \<and> lines_loop f g st1 ys = Inr st'"
  using assms unfolding lines_loop_append
  by (cases "lines_loop f g st xs") simp_all

lemma lines_loop_header_set:
  assumes "lines_loop f g (start obj) (hdr # ls) = Inr st"
  shows "header st \<noteq> None"
proof -
  from assms obtain st1 where
    h: "header_line g (start obj) hdr = Inr st1" and r: "lines_loop f g st1 ls = Inr st"
    unfolding lines_loop_start_Cons by (cases "header_line g (start obj) hdr") simp_all
  from header_line_Inr_header [OF h] have "header st1 \<noteq> None" by simp
  from lines_loop_header_kept [OF this r] this show ?thesis by simp
qed

text \<open>
  Claim C2, as amended. The end of the stream is not checked: the loop over the lines simply
  ends. When a stream parses without error, so does the stream cut after any of its body
  lines, and so does the stream whose last line keeps only some of the leading tokens of
  the corresponding line: parsing returns normally on a stream that ends inside a group or
  before all groups are filled.
\<close>

theorem truncated_stream_returns:
  assumes "read_sph_stream f g obj (hdr # ls @ l # rest) = Inr obj'"
    and "prefix (str_split l') (str_split l)"
  shows "(\<exists>obj1. read_sph_stream f g obj (hdr # ls) = Inr obj1) \<and>
         (\<exists>obj2. read_sph_stream f g obj (hdr # ls @ [l']) = Inr obj2)"
proof -
  have eq: "hdr # ls @ l # rest = (hdr # ls) @ (l # rest)" by simp
  from read_sph_stream_Inr [OF assms(1)] obtain st' where
    "lines_loop f g (start obj) ((hdr # ls) @ (l # rest)) = Inr st'"
    unfolding eq by blast
  from lines_loop_append_Inr [OF this] obtain st where
    a: "lines_loop f g (start obj) (hdr # ls) = Inr st"
    and b: "lines_loop f g st (l # rest) = Inr st'"
    by blast
  from lines_loop_header_set [OF a] have hn: "header st \<noteq> None" .
  then obtain h where hs: "header st = Some h" by auto
  from b obtain st1 where "body_line f st l = Inr st1"
    unfolding body_lines_Cons [OF hn] by (cases "body_line f st l") simp_all
  from body_line_prefix [OF this assms(2)] obtain st2 where
    c: "body_line f st l' = Inr st2" ..
  have "lines_loop f g st [l'] = Inr st2"
    unfolding body_lines_Cons [OF hn] by (simp add: c)
  then have "lines_loop f g (start obj) ((hdr # ls) @ [l']) = Inr st2"
    unfolding lines_loop_append by (simp only: a sum.case)
  then have "lines_loop f g (start obj) (hdr # ls @ [l']) = Inr st2" by simp
  then have "read_sph_stream f g obj (hdr # ls @ [l']) = Inr (self st2)"
    by (simp only: read_sph_stream_def sum.case)
  moreover from a have "read_sph_stream f g obj (hdr # ls) = Inr (self st)"
    by (simp only: read_sph_stream_def sum.case)
  ultimately show ?thesis by blast
qed

text \<open>The theorem on the stream of two knots, cut inside its last line.\<close>

theorem truncated_stream_returns_witness:
  "read_sph_stream example_float example_int two_knots
      (''1 11 2 11'' # [''0.5'', ''0.1 0.2 0.3'', ''0.5''] @ ''0.1 0.2 0.3'' # [])
     = Inr two_knots_read \<and>
   prefix (str_split ''0.1 0.2'') (str_split ''0.1 0.2 0.3'') \<and>
   (\<exists>obj1. read_sph_stream example_float example_int two_knots
             (''1 11 2 11'' # [''0.5'', ''0.1 0.2 0.3'', ''0.5'']) = Inr obj1) \<and>
   (\<exists>obj2. read_sph_stream example_float example_int two_knots
             (''1 11 2 11'' # [''0.5'', ''0.1 0.2 0.3'', ''0.5''] @ [''0.1 0.2'']) = Inr obj2)"
proof -
  have r: "read_sph_stream example_float example_int two_knots
      (''1 11 2 11'' # [''0.5'', ''0.1 0.2 0.3'', ''0.5''] @ ''0.1 0.2 0.3'' # [])
     = Inr two_knots_read" by code_simp
  have p: "prefix (str_split ''0.1 0.2'') (str_split ''0.1 0.2 0.3'')" by code_simp
  note t = truncated_stream_returns [OF r p]
  show ?thesis by (intro conjI r p t [THEN conjunct1] t [THEN conjunct2])
qed

text \<open>
  Claim C2 as stated fails: with one token fewer than required in the last group of the
  last knot, parsing returns; the entries of the incomplete group are left at zero.
\<close>

theorem truncated_stream_counterexample:
  "read_sph_stream example_float example_int two_knots
      [''1 11 2 11'', ''0.5'', ''0.1 0.2 0.3'', ''0.5'', ''0.1 0.2'']
     = Inr (two_knots\<lparr>coefs := Some
         [[[[1 / 2, 0], [1 / 10, 1 / 5]], [[0, 0], [0, 3 / 10]]],
          [[[1 / 2, 0], [0, 0]], [[0, 0], [0, 0]]]]\<rparr>)"
  by code_simp

section \<open>Lines and the flat stream of tokens\<close>

lemma read_tokens_short:
  "length (dataline st @ toks) < li st * 2 + 1 \<Longrightarrow>
     read_tokens f st toks = Inr (st\<lparr>dataline := dataline st @ toks\<rparr>)"
  by (subst read_tokens.simps) simp

lemma read_tokens_group:
  "\<not> length (dataline st @ toks) < li st * 2 + 1 \<Longrightarrow>
     read_tokens f st toks =
       (case complete_group f (st\<lparr>dataline := take (li st * 2 + 1) (dataline st @ toks)\<rparr>) of
          Inl e \<Rightarrow> Inl e
        | Inr st' \<Rightarrow>
            read_tokens f (st'\<lparr>dataline := []\<rparr>) (drop (li st * 2 + 1) (dataline st @ toks)))"
  by (subst read_tokens.simps) simp

lemma read_tokens_pending:
  "read_tokens f (st\<lparr>dataline := dataline st @ xs\<rparr>) toks = read_tokens f st (xs @ toks)"
proof (cases "length (dataline st @ xs @ toks) < li st * 2 + 1")
  case True
  then show ?thesis by (simp add: read_tokens_short)
next
  case False
  then show ?thesis
    by (simp add: read_tokens_group [of "st\<lparr>dataline := dataline st @ xs\<rparr>"]
        read_tokens_group [of st "xs @ toks"] del: take_append drop_append cong: sum.case_cong)
qed

lemma read_tokens_exact:
  assumes "length (dataline st @ xs) = li st * 2 + 1"
  shows "read_tokens f st (xs @ toks) =
           (case complete_group f (st\<lparr>dataline := dataline st @ xs\<rparr>) of
              Inl e \<Rightarrow> Inl e
            | Inr st' \<Rightarrow> read_tokens f st' toks)"
proof -
  have n: "\<not> length (dataline st @ (xs @ toks)) < li st * 2 + 1" using assms by simp
  have t: "take (li st * 2 + 1) (dataline st @ (xs @ toks)) = dataline st @ xs"
    using assms by (metis append.assoc append_eq_conv_conj)
  have d: "drop (li st * 2 + 1) (dataline st @ (xs @ toks)) = toks"
    using assms by (metis append.assoc append_eq_conv_conj)
  show ?thesis
  proof (cases "complete_group f (st\<lparr>dataline := dataline st @ xs\<rparr>)")
    case (Inl e)
    then show ?thesis by (simp only: read_tokens_group [OF n] t sum.case)
  next
    case (Inr st')
    from complete_group_dataline [OF Inr] have "st'\<lparr>dataline := []\<rparr> = st'" by simp
    with Inr show ?thesis by (simp only: read_tokens_group [OF n] t d sum.case)
  qed
qed

lemma body_lines_read_tokens:
  assumes "header st \<noteq> None" "length (dataline st) < li st * 2 + 1"
  shows "lines_loop f g st ls = read_tokens f st (concat (map str_split ls)) \<or>
         (\<exists>pre line rest st'. ls = pre @ line # rest \<and> lines_loop f g st pre = Inr st' \<and>
            li st' * 2 + 1 < length (dataline st' @ str_split line) \<and>
            lines_loop f g st ls = Inl (AssertionError ''Too much data'', self st'))"
  using assms
proof (induction ls arbitrary: st)
  case Nil
  then show ?case by (simp add: read_tokens_short)
next
  case (Cons l ls)
  note hn = Cons.prems(1)
  let ?st1 = "st\<lparr>dataline := dataline st @ str_split l\<rparr>"
  consider (short) "length (dataline st @ str_split l) < li st * 2 + 1"
    | (exact) "length (dataline st @ str_split l) = li st * 2 + 1"
    | (long) "li st * 2 + 1 < length (dataline st @ str_split l)"
    by linarith
  then show ?case
  proof cases
    case short
    then have b: "body_line f st l = Inr ?st1" by (rule body_line_short)
    have step: "lines_loop f g st (l # xs) = lines_loop f g ?st1 xs" for xs
      unfolding body_lines_Cons [OF hn] b by simp
    have "lines_loop f g ?st1 ls = read_tokens f ?st1 (concat (map str_split ls)) \<or>
         (\<exists>pre line rest st'. ls = pre @ line # rest \<and> lines_loop f g ?st1 pre = Inr st' \<and>
            li st' * 2 + 1 < length (dataline st' @ str_split line) \<and>
            lines_loop f g ?st1 ls = Inl (AssertionError ''Too much data'', self st'))"
      by (rule Cons.IH) (use hn short in simp_all)
    then show ?thesis
    proof
      assume "lines_loop f g ?st1 ls = read_tokens f ?st1 (concat (map str_split ls))"
      then have "lines_loop f g st (l # ls) = read_tokens f st (concat (map str_split (l # ls)))"
        by (simp only: step read_tokens_pending list.map concat.simps)
      then show ?thesis by (rule disjI1)
    next
      assume "\<exists>pre line rest st'. ls = pre @ line # rest \<and> lines_loop f g ?st1 pre = Inr st' \<and>
            li st' * 2 + 1 < length (dataline st' @ str_split line) \<and>
            lines_loop f g ?st1 ls = Inl (AssertionError ''Too much data'', self st')"
      then obtain pre line rest st' where
        e: "ls = pre @ line # rest" "lines_loop f g ?st1 pre = Inr st'"
           "li st' * 2 + 1 < length (dataline st' @ str_split line)"
           "lines_loop f g ?st1 ls = Inl (AssertionError ''Too much data'', self st')"
        by blast
      have "l # ls = (l # pre) @ line # rest" using e(1) by simp
      moreover have "lines_loop f g st (l # pre) = Inr st'" using e(2) by (simp only: step)
      moreover have "lines_loop f g st (l # ls) = Inl (AssertionError ''Too much data'', self st')"
        using e(4) by (simp only: step)
      ultimately show ?thesis using e(3) by blast
    qed
  next
    case exact
    then have b: "body_line f st l = complete_group f ?st1" by (rule body_line_exact)
    show ?thesis
    proof (cases "complete_group f ?st1")
      case (Inl e)
      have "lines_loop f g st (l # ls) = Inl e"
        unfolding body_lines_Cons [OF hn] b Inl by simp
      moreover have "read_tokens f st (concat (map str_split (l # ls))) = Inl e"
        by (simp add: read_tokens_exact [OF exact] Inl)
      ultimately show ?thesis by simp
    next
      case (Inr st2)
      have step: "lines_loop f g st (l # xs) = lines_loop f g st2 xs" for xs
        unfolding body_lines_Cons [OF hn] b Inr by simp
      have h': "header st2 \<noteq> None" using complete_group_header [OF Inr] hn by simp
      have p': "length (dataline st2) < li st2 * 2 + 1"
        using complete_group_dataline [OF Inr] by simp
      have fl: "read_tokens f st (concat (map str_split (l # ls)))
                  = read_tokens f st2 (concat (map str_split ls))"
        by (simp add: read_tokens_exact [OF exact] Inr)
      from Cons.IH [OF h' p'] show ?thesis
      proof
        assume "lines_loop f g st2 ls = read_tokens f st2 (concat (map str_split ls))"
        then have "lines_loop f g st (l # ls) = read_tokens f st (concat (map str_split (l # ls)))"
          by (simp only: step fl)
        then show ?thesis by (rule disjI1)
      next
        assume "\<exists>pre line rest st'. ls = pre @ line # rest \<and> lines_loop f g st2 pre = Inr st' \<and>
            li st' * 2 + 1 < length (dataline st' @ str_split line) \<and>
            lines_loop f g st2 ls = Inl (AssertionError ''Too much data'', self st')"
        then obtain pre line rest st' where
          e: "ls = pre @ line # rest" "lines_loop f g st2 pre = Inr st'"
             "li st' * 2 + 1 < length (dataline st' @ str_split line)"
             "lines_loop f g st2 ls = Inl (AssertionError ''Too much data'', self st')"
          by blast
        have "l # ls = (l # pre) @ line # rest" using e(1) by simp
        moreover have "lines_loop f g st (l # pre) = Inr st'" using e(2) by (simp only: step)
        moreover have "lines_loop f g st (l # ls) = Inl (AssertionError ''Too much data'', self st')"
          using e(4) by (simp only: step)
        ultimately show ?thesis using e(3) by blast
      qed
    qed
  next
    case long
    then have "body_line f st l = Inl (AssertionError ''Too much data'', self st)"
      by (rule body_line_long)
    then have r: "lines_loop f g st (l # ls) = Inl (AssertionError ''Too much data'', self st)"
      unfolding body_lines_Cons [OF hn] by simp
    have "l # ls = [] @ l # ls" by simp
    moreover have "lines_loop f g st [] = Inr st" by simp
    ultimately show ?thesis using long r by blast
  qed
qed

lemma read_sph_stream_read_tokens:
  assumes hl: "header_line g (start obj) hdr = Inr st0"
  shows "read_sph_stream f g obj (hdr # ls)
           = (case read_tokens f st0 (concat (map str_split ls)) of
                Inl e \<Rightarrow> Inl e | Inr st' \<Rightarrow> Inr (self st')) \<or>
         (\<exists>pre line rest st. ls = pre @ line # rest \<and>
            lines_loop f g (start obj) (hdr # pre) = Inr st \<and>
            li st * 2 + 1 < length (dataline st @ str_split line) \<and>
            read_sph_stream f g obj (hdr # ls) = Inl (AssertionError ''Too much data'', self st))"
proof -
  have h: "header st0 \<noteq> None" using header_line_Inr_header [OF hl] by simp
  have p: "length (dataline st0) < li st0 * 2 + 1"
    using header_line_pending [OF hl] by (simp add: start_def)
  have r: "read_sph_stream f g obj (hdr # xs) =
             (case lines_loop f g st0 xs of Inl e \<Rightarrow> Inl e | Inr st' \<Rightarrow> Inr (self st'))" for xs
    by (simp only: read_sph_stream_Cons hl sum.case)
  have s: "lines_loop f g (start obj) (hdr # xs) = lines_loop f g st0 xs" for xs
    by (simp only: lines_loop_start_Cons hl sum.case)
  from body_lines_read_tokens [OF h p, of f g ls] show ?thesis
  proof
    assume "lines_loop f g st0 ls = read_tokens f st0 (concat (map str_split ls))"
    then show ?thesis by (simp only: r simp_thms)
  next
    assume "\<exists>pre line rest st'. ls = pre @ line # rest \<and> lines_loop f g st0 pre = Inr st' \<and>
            li st' * 2 + 1 < length (dataline st' @ str_split line) \<and>
            lines_loop f g st0 ls = Inl (AssertionError ''Too much data'', self st')"
    then obtain pre line rest st' where
      e: "ls = pre @ line # rest" "lines_loop f g st0 pre = Inr st'"
         "li st' * 2 + 1 < length (dataline st' @ str_split line)"
         "lines_loop f g st0 ls = Inl (AssertionError ''Too much data'', self st')"
      by blast
    have "lines_loop f g (start obj) (hdr # pre) = Inr st'" using e(2) by (simp only: s)
    moreover have "read_sph_stream f g obj (hdr # ls) = Inl (AssertionError ''Too much data'', self st')"
      using e(4) by (simp only: r sum.case)
    ultimately show ?thesis using e(1,3) by blast
  qed
qed

lemma no_overrun_scan:
  assumes "list_all (\<lambda>n. case lines_loop f g st0 (hdr # take n ls) of
                           Inl e \<Rightarrow> True
                         | Inr st \<Rightarrow> length (dataline st @ str_split (ls ! n)) \<le> li st * 2 + 1)
             [0 ..< length ls]"
  shows "\<not> (\<exists>pre line rest st. ls = pre @ line # rest \<and>
            lines_loop f g st0 (hdr # pre) = Inr st \<and>
            li st * 2 + 1 < length (dataline st @ str_split line))"
proof
  assume "\<exists>pre line rest st. ls = pre @ line # rest \<and>
            lines_loop f g st0 (hdr # pre) = Inr st \<and>
            li st * 2 + 1 < length (dataline st @ str_split line)"
  then obtain pre line rest st where
    e: "ls = pre @ line # rest" "lines_loop f g st0 (hdr # pre) = Inr st"
       "li st * 2 + 1 < length (dataline st @ str_split line)"
    by blast
  have n: "length pre < length ls" using e(1) by simp
  have t: "take (length pre) ls = pre" "ls ! length pre = line" using e(1) by simp_all
  from assms n have "case lines_loop f g st0 (hdr # take (length pre) ls) of
                           Inl e \<Rightarrow> True
                         | Inr st \<Rightarrow> length (dataline st @ str_split (ls ! length pre)) \<le> li st * 2 + 1"
    by (simp add: list_all_iff)
  then have "length (dataline st @ str_split line) \<le> li st * 2 + 1"
    by (simp only: t e(2) sum.case)
  with e(3) show False by simp
qed

text \<open>
  Claim C7, as amended. Line breaks in the body are insignificant as long as no line carries
  tokens beyond the end of the group being filled. For two streams with the same header
  line whose body lines hold the same sequence of tokens, both have the same outcome, the
  same object on return and the same error and object on a raise, unless in one of them
  some line, reached after lines that were read without error, brings the buffer beyond
  \<open>li * 2 + 1\<close> tokens; that stream then fails there with \<open>Too much data\<close>.
\<close>

theorem line_breaks_within_groups:
  assumes "concat (map str_split ls1) = concat (map str_split ls2)"
  shows "read_sph_stream f g obj (hdr # ls1) = read_sph_stream f g obj (hdr # ls2) \<or>
         (\<exists>pre line rest st. ls1 = pre @ line # rest \<and>
            lines_loop f g (start obj) (hdr # pre) = Inr st \<and>
            li st * 2 + 1 < length (dataline st @ str_split line) \<and>
            read_sph_stream f g obj (hdr # ls1) = Inl (AssertionError ''Too much data'', self st)) \<or>
         (\<exists>pre line rest st. ls2 = pre @ line # rest \<and>
            lines_loop f g (start obj) (hdr # pre) = Inr st \<and>
            li st * 2 + 1 < length (dataline st @ str_split line) \<and>
            read_sph_stream f g obj (hdr # ls2) = Inl (AssertionError ''Too much data'', self st))"
proof (cases "header_line g (start obj) hdr")
  case (Inl e)
  then show ?thesis by (simp only: read_sph_stream_Cons sum.case simp_thms)
next
  case (Inr st0)
  from read_sph_stream_read_tokens [OF Inr, of f ls1] read_sph_stream_read_tokens [OF Inr, of f ls2] assms
  show ?thesis by metis
qed

text \<open>
  The theorem on two ways of breaking the body of the stream of two knots into lines. In
  neither does a line bring the buffer beyond the group being filled, so the theorem gives
  that the two are read alike.
\<close>

theorem line_breaks_within_groups_witness:
  "concat (map str_split [''0.5'', ''0.1 0.2 0.3'', ''0.5'', ''0.1 0.2 0.3''])
     = concat (map str_split [''0.5'', ''0.1'', ''0.2 0.3'', '' '', ''0.5'', ''0.1 0.2'', ''0.3'']) \<and>
   \<not> (\<exists>pre line rest st.
         [''0.5'', ''0.1 0.2 0.3'', ''0.5'', ''0.1 0.2 0.3''] = pre @ line # rest \<and>
         lines_loop example_float example_int (start two_knots) (''1 11 2 11'' # pre) = Inr st \<and>
         li st * 2 + 1 < length (dataline st @ str_split line)) \<and>
   \<not> (\<exists>pre line rest st.
         [''0.5'', ''0.1'', ''0.2 0.3'', '' '', ''0.5'', ''0.1 0.2'', ''0.3''] = pre @ line # rest \<and>
         lines_loop example_float example_int (start two_knots) (''1 11 2 11'' # pre) = Inr st \<and>
         li st * 2 + 1 < length (dataline st @ str_split line)) \<and>
   read_sph_stream example_float example_int two_knots
       (''1 11 2 11'' # [''0.5'', ''0.1 0.2 0.3'', ''0.5'', ''0.1 0.2 0.3''])
     = read_sph_stream example_float example_int two_knots
       (''1 11 2 11'' # [''0.5'', ''0.1'', ''0.2 0.3'', '' '', ''0.5'', ''0.1 0.2'', ''0.3'']) \<and>
   read_sph_stream example_float example_int two_knots
       (''1 11 2 11'' # [''0.5'', ''0.1'', ''0.2 0.3'', '' '', ''0.5'', ''0.1 0.2'', ''0.3''])
     = Inr two_knots_read"
proof -
  have c: "concat (map str_split [''0.5'', ''0.1 0.2 0.3'', ''0.5'', ''0.1 0.2 0.3''])
     = concat (map str_split [''0.5'', ''0.1'', ''0.2 0.3'', '' '', ''0.5'', ''0.1 0.2'', ''0.3''])"
    by code_simp
  have n1: "\<not> (\<exists>pre line rest st.
         [''0.5'', ''0.1 0.2 0.3'', ''0.5'', ''0.1 0.2 0.3''] = pre @ line # rest \<and>
         lines_loop example_float example_int (start two_knots) (''1 11 2 11'' # pre) = Inr st \<and>
         li st * 2 + 1 < length (dataline st @ str_split line))"
    by (rule no_overrun_scan) code_simp
  have n2: "\<not> (\<exists>pre line rest st.
         [''0.5'', ''0.1'', ''0.2 0.3'', '' '', ''0.5'', ''0.1 0.2'', ''0.3''] = pre @ line # rest \<and>
         lines_loop example_float example_int (start two_knots) (''1 11 2 11'' # pre) = Inr st \<and>
         li st * 2 + 1 < length (dataline st @ str_split line))"
    by (rule no_overrun_scan) code_simp
  have r: "read_sph_stream example_float example_int two_knots
       (''1 11 2 11'' # [''0.5'', ''0.1'', ''0.2 0.3'', '' '', ''0.5'', ''0.1 0.2'', ''0.3''])
     = Inr two_knots_read" by code_simp
  from line_breaks_within_groups [OF c, of example_float example_int two_knots "''1 11 2 11''"]
    n1 n2
  have e: "read_sph_stream example_float example_int two_knots
       (''1 11 2 11'' # [''0.5'', ''0.1 0.2 0.3'', ''0.5'', ''0.1 0.2 0.3''])
     = read_sph_stream example_float example_int two_knots
       (''1 11 2 11'' # [''0.5'', ''0.1'', ''0.2 0.3'', '' '', ''0.5'', ''0.1 0.2'', ''0.3''])"
    by blast
  show ?thesis by (intro conjI c n1 n2 e r)
qed

text \<open>
  Claim C7 as stated fails: the body of the stream of two knots parses with one group on
  each line, and fails with the first two groups sharing a line.
\<close>

theorem line_breaks_counterexample:
  "concat (map str_split [''0.5'', ''0.1 0.2 0.3'', ''0.5'', ''0.1 0.2 0.3''])
     = concat (map str_split [''0.5 0.1'', ''0.2 0.3'', ''0.5'', ''0.1 0.2 0.3'']) \<and>
   read_sph_stream example_float example_int two_knots
       (''1 11 2 11'' # [''0.5'', ''0.1 0.2 0.3'', ''0.5'', ''0.1 0.2 0.3''])
     = Inr two_knots_read \<and>
   read_sph_stream example_float example_int two_knots
       (''1 11 2 11'' # [''0.5 0.1'', ''0.2 0.3'', ''0.5'', ''0.1 0.2 0.3''])
     = Inl (AssertionError ''Too much data'', two_knots)"
  by code_simp

section \<open>Input after the last group\<close>

lemma complete_group_ri:
  assumes "complete_group f st = Inr st'" "dataline st \<noteq> []" "in_bounds (self st)"
  shows "ri st < length (knots (self st))"
proof -
  from assms(2) obtain t ts where dl: "dataline st = t # ts" by (cases "dataline st") auto
  from complete_group_self [OF assms(1)]
  have "decode f (ri st) (li st) (self st) (running_mi 0) 0 (t # ts) = Inr (self st')"
    by (simp add: dl)
  then obtain obj1 where
    s: "store f (self st) (ri st) (component_at 0) (li st) (running_mi 0) t = Inr obj1"
    unfolding decode_Cons
    by (cases "store f (self st) (ri st) (component_at 0) (li st) (running_mi 0) t") simp_all
  from store_Inr [OF s] obtain v a a' where
    h: "coefs (self st) = Some a" "setitem a (ri st) (component_at 0) (li st) (running_mi 0) v = Some a'"
    by blast
  from h(2) have "getitem a (ri st) (component_at 0) (li st) (running_mi 0) \<noteq> None"
    using setitem_None_iff [of a "ri st" "component_at 0" "li st" "running_mi 0" v] by auto
  with h(1) have "coef_at (self st) (ri st) (component_at 0) (li st) (running_mi 0) \<noteq> None"
    by (simp add: coef_at_def)
  moreover from assms(3) obtain d where
    "\<forall>i j k l. (coef_at (self st) i j k l \<noteq> None) =
       (i < length (knots (self st)) \<and> j < 2 \<and> int k \<le> d \<and> int l \<le> d)"
    unfolding in_bounds_def by blast
  ultimately show ?thesis by blast
qed

lemma terminal_body_line:
  assumes "in_bounds (self st)" "ri st = length (knots (self st))" "li st = 0"
    "dataline st = []"
  shows "(str_split line = [] \<longrightarrow> body_line f st line = Inr st) \<and>
         (str_split line \<noteq> [] \<longrightarrow> (\<exists>e obj'. body_line f st line = Inl (e, obj')))"
proof (cases "str_split line = []")
  case True
  with assms(3,4) have "body_line f st line = Inr (st\<lparr>dataline := dataline st @ str_split line\<rparr>)"
    by (intro body_line_short) simp
  with True assms(4) show ?thesis by simp
next
  case False
  have "\<exists>e obj'. body_line f st line = Inl (e, obj')"
  proof (cases "body_line f st line")
    case (Inl x)
    then show ?thesis by (cases x) simp
  next
    case (Inr st')
    let ?st1 = "st\<lparr>dataline := dataline st @ str_split line\<rparr>"
    from body_line_Inr [OF Inr] False assms(3,4)
    have "complete_group f ?st1 = Inr st'" by auto
    from complete_group_ri [OF this] False assms(1,4)
    have "ri st < length (knots (self st))" by simp
    with assms(2) show ?thesis by simp
  qed
  with False show ?thesis by simp
qed

lemma terminal_lines:
  assumes "header st \<noteq> None" "in_bounds (self st)" "ri st = length (knots (self st))"
    "li st = 0" "dataline st = []"
  shows "(concat (map str_split extra) = [] \<longrightarrow> lines_loop f g st extra = Inr st) \<and>
         (concat (map str_split extra) \<noteq> [] \<longrightarrow>
            (\<exists>e obj'. lines_loop f g st extra = Inl (e, obj')))"
proof (induction extra)
  case Nil
  show ?case by simp
next
  case (Cons line rest)
  note t = terminal_body_line [OF assms(2-5), where f = f and line = line]
  from assms(1) obtain h where hs: "header st = Some h" by auto
  show ?case
  proof (cases "str_split line = []")
    case True
    with t have "body_line f st line = Inr st" by simp
    with Cons True show ?thesis by (simp add: hs)
  next
    case False
    with t obtain e obj' where "body_line f st line = Inl (e, obj')" by blast
    with False show ?thesis by (simp add: hs)
  qed
qed

text \<open>
  Claim C8, as amended. Let the lines read so far, header included, leave the loop in the
  terminal state, \<open>ri = len(knots)\<close> and \<open>li = 0\<close>, for an object of consistent shape.
  Further lines without any token are ignored: the outcome is that of the stream without
  them. Further lines with a token are not: parsing raises an error.
\<close>

theorem trailing_input:
  assumes "consistent obj" "lines_loop f g (start obj) ls = Inr st" "header st \<noteq> None"
    and "ri st = length (knots (self st))" "li st = 0"
  shows "(concat (map str_split extra) = [] \<longrightarrow>
            read_sph_stream f g obj (ls @ extra) = read_sph_stream f g obj ls) \<and>
         (concat (map str_split extra) \<noteq> [] \<longrightarrow>
            (\<exists>e obj'. read_sph_stream f g obj (ls @ extra) = Inl (e, obj')))"
proof -
  from lines_loop_invariant [OF assms(1-3)] assms(5)
  have ib: "in_bounds (self st)" and dl: "dataline st = []" by simp_all
  note t = terminal_lines [OF assms(3) ib assms(4,5) dl, of extra f g]
  have r: "read_sph_stream f g obj (ls @ extra) =
             (case lines_loop f g st extra of Inl e \<Rightarrow> Inl e | Inr st' \<Rightarrow> Inr (self st'))"
    by (simp only: read_sph_stream_def lines_loop_append assms(2) sum.case)
  have r0: "read_sph_stream f g obj ls = Inr (self st)"
    by (simp only: read_sph_stream_def assms(2) sum.case)
  show ?thesis
  proof (intro conjI impI)
    assume "concat (map str_split extra) = []"
    with t have "lines_loop f g st extra = Inr st" by blast
    then show "read_sph_stream f g obj (ls @ extra) = read_sph_stream f g obj ls"
      by (simp only: r r0 sum.case)
  next
    assume "concat (map str_split extra) \<noteq> []"
    with t obtain e obj' where "lines_loop f g st extra = Inl (e, obj')" by blast
    then have "read_sph_stream f g obj (ls @ extra) = Inl (e, obj')"
      by (simp only: r sum.case)
    then show "\<exists>e obj'. read_sph_stream f g obj (ls @ extra) = Inl (e, obj')" by blast
  qed
qed

text \<open>
  The theorem at the end of the stream of one knot: two blank lines change nothing, a line
  with a token raises.
\<close>

theorem trailing_input_witness:
  "consistent one_knot \<and>
   lines_loop example_float example_int (start one_knot) one_knot_stream
     = Inr one_knot_stream_read \<and>
   header one_knot_stream_read \<noteq> None \<and>
   ri one_knot_stream_read = length (knots (self one_knot_stream_read)) \<and>
   li one_knot_stream_read = 0 \<and>
   concat (map str_split ['' '', '''']) = [] \<and>
   read_sph_stream example_float example_int one_knot (one_knot_stream @ ['' '', ''''])
     = read_sph_stream example_float example_int one_knot one_knot_stream \<and>
   concat (map str_split [''0.7'']) \<noteq> [] \<and>
   (\<exists>e obj'. read_sph_stream example_float example_int one_knot (one_knot_stream @ [''0.7''])
       = Inl (e, obj'))"
proof -
  have c: "consistent one_knot" by code_simp
  have l: "lines_loop example_float example_int (start one_knot) one_knot_stream
     = Inr one_knot_stream_read" by code_simp
  have h: "header one_knot_stream_read \<noteq> None" by code_simp
  have r: "ri one_knot_stream_read = length (knots (self one_knot_stream_read))" by code_simp
  have z: "li one_knot_stream_read = 0" by code_simp
  have b: "concat (map str_split ['' '', '''']) = []" by code_simp
  have n: "concat (map str_split [''0.7'']) \<noteq> []" by code_simp
  note t = trailing_input [OF c l h r z]
  note t1 = t [THEN conjunct1, THEN mp, OF b]
  note t2 = t [THEN conjunct2, THEN mp, OF n]
  show ?thesis by (intro conjI c l h r z b t1 n t2)
qed

text \<open>
  Claim C8 as stated fails: one more token after the last group of the last knot is not
  ignored, it is stored at knot index \<open>len(knots)\<close> and raises \<open>IndexError\<close>.
\<close>

theorem trailing_input_counterexample:
  "read_sph_stream example_float example_int one_knot one_knot_stream = Inr one_knot_read \<and>
   read_sph_stream example_float example_int one_knot (one_knot_stream @ [''0.7''])
     = Inl (IndexError, one_knot_read)"
  by code_simp

section \<open>The constructor and the knots\<close>

lemma store_knots:
  "store f (obj\<lparr>knots := ks'\<rparr>) i j k l c =
     map_sum (map_prod id (\<lambda>o'. o'\<lparr>knots := ks'\<rparr>)) (\<lambda>o'. o'\<lparr>knots := ks'\<rparr>)
       (store f obj i j k l c)"
  by (simp add: store_def split: option.splits)

lemma decode_knots:
  "decode f r l (obj\<lparr>knots := ks'\<rparr>) mi m toks =
     map_sum (map_prod id (\<lambda>o'. o'\<lparr>knots := ks'\<rparr>)) (\<lambda>o'. o'\<lparr>knots := ks'\<rparr>)
       (decode f r l obj mi m toks)"
proof (induction toks arbitrary: obj mi m)
  case Nil
  show ?case by simp
next
  case (Cons c rest)
  show ?case
  proof (cases "m = 0 \<or> m mod 2 = 1")
    case True
    then show ?thesis
      by (cases "store f obj r 0 l mi c") (auto simp: store_knots Cons.IH)
  next
    case False
    then show ?thesis
      by (cases "store f obj r 1 l mi c") (auto simp: store_knots Cons.IH)
  qed
qed

lemma complete_group_knots:
  assumes "length ks' = length (knots (self st))"
  shows "complete_group f (st\<lparr>self := (self st)\<lparr>knots := ks'\<rparr>\<rparr>) =
     map_sum (map_prod id (\<lambda>o'. o'\<lparr>knots := ks'\<rparr>)) (\<lambda>s. s\<lparr>self := (self s)\<lparr>knots := ks'\<rparr>\<rparr>)
       (complete_group f st)"
proof (cases "decode f (ri st) (li st) (self st) 0 0 (dataline st)")
  case (Inl e)
  then show ?thesis by (simp add: complete_group_def decode_knots assms)
next
  case (Inr obj1)
  then show ?thesis
    by (cases "degree obj1") (simp_all add: complete_group_def decode_knots assms)
qed

lemma body_line_knots:
  assumes "length ks' = length (knots (self st))"
  shows "body_line f (st\<lparr>self := (self st)\<lparr>knots := ks'\<rparr>\<rparr>) line =
     map_sum (map_prod id (\<lambda>o'. o'\<lparr>knots := ks'\<rparr>)) (\<lambda>s. s\<lparr>self := (self s)\<lparr>knots := ks'\<rparr>\<rparr>)
       (body_line f st line)"
proof -
  let ?st' = "st\<lparr>self := (self st)\<lparr>knots := ks'\<rparr>\<rparr>"
  let ?st1 = "st\<lparr>dataline := dataline st @ str_split line\<rparr>"
  have a: "length ks' = length (knots (self ?st1))" using assms by simp
  show ?thesis
  proof (cases "length (dataline st @ str_split line) = li st * 2 + 1")
    case True
    have b1: "body_line f ?st' line
                = complete_group f (?st'\<lparr>dataline := dataline ?st' @ str_split line\<rparr>)"
      by (rule body_line_exact) (use True in simp)
    have e: "?st'\<lparr>dataline := dataline ?st' @ str_split line\<rparr>
               = ?st1\<lparr>self := (self ?st1)\<lparr>knots := ks'\<rparr>\<rparr>" by simp
    show ?thesis
      by (simp only: b1 e complete_group_knots [OF a] body_line_exact [OF True])
  next
    case False
    then show ?thesis by (simp add: body_line_cases)
  qed
qed

lemma allocate_coefs_knots:
  assumes "length ks' = length (knots obj)"
  shows "allocate_coefs (obj\<lparr>knots := ks'\<rparr>) =
     map_sum (map_prod id (\<lambda>o'. o'\<lparr>knots := ks'\<rparr>)) (\<lambda>o'. o'\<lparr>knots := ks'\<rparr>)
       (allocate_coefs obj)"
  using assms by (simp add: allocate_coefs_def split: option.splits)

lemma header_line_knots:
  assumes "length ks' = length (knots (self st))"
  shows "header_line g (st\<lparr>self := (self st)\<lparr>knots := ks'\<rparr>\<rparr>) line =
     map_sum (map_prod id (\<lambda>o'. o'\<lparr>knots := ks'\<rparr>)) (\<lambda>s. s\<lparr>self := (self s)\<lparr>knots := ks'\<rparr>\<rparr>)
       (header_line g st line)"
  using assms
  by (auto simp: header_line_def Let_def allocate_coefs_def id_def split: option.splits)

lemma header_line_knots_kept:
  "header_line g st line = Inr st' \<Longrightarrow> knots (self st') = knots (self st)"
  using header_line_Inr [of g st line st']
  by (auto simp: allocate_coefs_def split: option.splits if_splits)

lemma lines_loop_knots:
  assumes "length ks' = length (knots (self st))"
  shows "lines_loop f g (st\<lparr>self := (self st)\<lparr>knots := ks'\<rparr>\<rparr>) ls =
     map_sum (map_prod id (\<lambda>o'. o'\<lparr>knots := ks'\<rparr>)) (\<lambda>s. s\<lparr>self := (self s)\<lparr>knots := ks'\<rparr>\<rparr>)
       (lines_loop f g st ls)"
  using assms
proof (induction ls arbitrary: st)
  case Nil
  show ?case by simp
next
  case (Cons line rest)
  show ?case
  proof (cases "header st")
    case None
    show ?thesis
    proof (cases "header_line g st line")
      case (Inl e)
      then show ?thesis by (simp add: None header_line_knots [OF Cons.prems] id_def)
    next
      case (Inr st1)
      from header_line_knots_kept [OF Inr] Cons.prems
      have "length ks' = length (knots (self st1))" by simp
      from Cons.IH [OF this] Inr show ?thesis
        by (simp add: None header_line_knots [OF Cons.prems] id_def)
    qed
  next
    case (Some h)
    show ?thesis
    proof (cases "body_line f st line")
      case (Inl e)
      then show ?thesis by (simp add: Some body_line_knots [OF Cons.prems] id_def)
    next
      case (Inr st1)
      from body_line_fields(1) [OF Inr] Cons.prems
      have "length ks' = length (knots (self st1))" by simp
      from Cons.IH [OF this] Inr show ?thesis
        by (simp add: Some body_line_knots [OF Cons.prems] id_def)
    qed
  qed
qed

lemma lines_loop_knots_kept:
  "lines_loop f g st ls = Inr st' \<Longrightarrow> knots (self st') = knots (self st)"
proof (induction ls arbitrary: st)
  case Nil
  then show ?case by simp
next
  case (Cons line rest)
  show ?case
  proof (cases "header st")
    case None
    with Cons.prems obtain st1 where
      h: "header_line g st line = Inr st1" and r: "lines_loop f g st1 rest = Inr st'"
      by (cases "header_line g st line") simp_all
    from Cons.IH [OF r] header_line_knots_kept [OF h] show ?thesis by simp
  next
    case (Some h)
    with Cons.prems obtain st1 where
      b: "body_line f st line = Inr st1" and r: "lines_loop f g st1 rest = Inr st'"
      by (cases "body_line f st line") simp_all
    from Cons.IH [OF r] body_line_fields(1) [OF b] show ?thesis by simp
  qed
qed

lemma read_sph_stream_knots:
  assumes "length ks' = length (knots obj)"
  shows "read_sph_stream f g (obj\<lparr>knots := ks'\<rparr>) ls =
     map_sum (map_prod id (\<lambda>o'. o'\<lparr>knots := ks'\<rparr>)) (\<lambda>o'. o'\<lparr>knots := ks'\<rparr>)
       (read_sph_stream f g obj ls)"
proof -
  have s: "start (obj\<lparr>knots := ks'\<rparr>) = (start obj)\<lparr>self := (self (start obj))\<lparr>knots := ks'\<rparr>\<rparr>"
    by (simp add: start_def)
  have a: "length ks' = length (knots (self (start obj)))" using assms by (simp add: start_def)
  show ?thesis
    unfolding read_sph_stream_def s lines_loop_knots [OF a]
    by (cases "lines_loop f g (start obj) ls") simp_all
qed

lemma read_sph_stream_knots_kept:
  "read_sph_stream f g obj ls = Inr obj' \<Longrightarrow> knots obj' = knots obj"
  using read_sph_stream_Inr [of f g obj ls obj'] lines_loop_knots_kept [of f g "start obj" ls]
  by (auto simp: self_start)

lemma allocate_coefs_knots_kept:
  "allocate_coefs obj = Inr obj1 \<Longrightarrow> knots obj1 = knots obj"
  by (auto simp: allocate_coefs_def split: option.splits if_splits)

lemma init_Inr:
  assumes "init f g filename deg kn inner outer = Inr obj"
  shows "\<exists>obj1. (if deg \<noteq> None
                  then allocate_coefs \<lparr>knots = (case kn of None \<Rightarrow> DEFAULT_KNOTS | Some ks \<Rightarrow> ks),
                         degree = deg, coefs = None, inner_radius = inner, outer_radius = outer\<rparr>
                  else Inr \<lparr>knots = (case kn of None \<Rightarrow> DEFAULT_KNOTS | Some ks \<Rightarrow> ks),
                         degree = deg, coefs = None, inner_radius = inner, outer_radius = outer\<rparr>)
                 = Inr obj1 \<and>
           (case filename of None \<Rightarrow> Inr obj1
            | Some fileobj \<Rightarrow> read_sph_stream f g obj1 fileobj) = Inr obj"
  using assms unfolding init_def Let_def
  by (auto split: sum.splits prod.splits if_splits)

lemma init_knots_kept:
  assumes "init f g filename deg (Some ks) inner outer = Inr obj"
  shows "knots obj = ks"
proof -
  let ?obj0 = "\<lparr>knots = ks, degree = deg, coefs = None,
                inner_radius = inner, outer_radius = outer\<rparr> :: 'a pyrts"
  from init_Inr [OF assms, unfolded option.case] obtain obj1 where
    a: "(if deg \<noteq> None then allocate_coefs ?obj0 else Inr ?obj0) = Inr obj1"
    and r: "(case filename of None \<Rightarrow> Inr obj1
            | Some fileobj \<Rightarrow> read_sph_stream f g obj1 fileobj) = Inr obj"
    by blast
  from a have k1: "knots obj1 = ks"
    by (cases "deg \<noteq> None") (auto dest: allocate_coefs_knots_kept)
  from r have "knots obj = knots obj1"
    by (cases filename) (auto dest: read_sph_stream_knots_kept)
  with k1 show ?thesis by simp
qed

lemma init_knots_length_only:
  assumes "length ks' = length ks"
  shows "init f g filename deg (Some ks') inner outer =
           map_sum id (\<lambda>o'. o'\<lparr>knots := ks'\<rparr>) (init f g filename deg (Some ks) inner outer)"
proof -
  let ?obj0 = "\<lparr>knots = ks, degree = deg, coefs = None,
                inner_radius = inner, outer_radius = outer\<rparr> :: 'a pyrts"
  let ?K = "\<lambda>o' :: 'a pyrts. o'\<lparr>knots := ks'\<rparr>"
  have o: "\<lparr>knots = ks', degree = deg, coefs = None,
            inner_radius = inner, outer_radius = outer\<rparr> = ?K ?obj0" by simp
  have a0: "length ks' = length (knots ?obj0)" using assms by simp
  have al: "allocate_coefs (?K ?obj0) = map_sum (map_prod id ?K) ?K (allocate_coefs ?obj0)"
    by (rule allocate_coefs_knots [OF a0])
  have rd: "read_sph_stream f g (?K obj1) ls
              = map_sum (map_prod id ?K) ?K (read_sph_stream f g obj1 ls)"
    if "knots obj1 = ks" for obj1 ls
    by (rule read_sph_stream_knots) (use that assms in simp)
  have fin: "(case (case filename of None \<Rightarrow> Inr (?K obj1)
                   | Some fileobj \<Rightarrow> read_sph_stream f g (?K obj1) fileobj) of
                Inl (e, _) \<Rightarrow> Inl e
              | Inr obj2 \<Rightarrow>
                 if coefs obj2 = None
                 then Inl (AssertionError ''You must provide a filename or degree'')
                 else Inr obj2)
             = map_sum id ?K
                (case (case filename of None \<Rightarrow> Inr obj1
                       | Some fileobj \<Rightarrow> read_sph_stream f g obj1 fileobj) of
                   Inl (e, _) \<Rightarrow> Inl e
                 | Inr obj2 \<Rightarrow>
                    if coefs obj2 = None
                    then Inl (AssertionError ''You must provide a filename or degree'')
                    else Inr obj2)"
    if k: "knots obj1 = ks" for obj1
  proof (cases filename)
    case None
    then show ?thesis by simp
  next
    case (Some fileobj)
    show ?thesis
      unfolding Some option.case rd [OF k]
      by (cases "read_sph_stream f g obj1 fileobj") (auto split: prod.splits)
  qed
  show ?thesis
  proof (cases "deg \<noteq> None")
    case False
    have k0: "knots ?obj0 = ks" by simp
    have i1: "init f g filename deg (Some ks') inner outer =
        (case (case filename of None \<Rightarrow> Inr (?K ?obj0)
               | Some fileobj \<Rightarrow> read_sph_stream f g (?K ?obj0) fileobj) of
           Inl (e, _) \<Rightarrow> Inl e
         | Inr obj2 \<Rightarrow>
            if coefs obj2 = None
            then Inl (AssertionError ''You must provide a filename or degree'')
            else Inr obj2)"
      by (simp only: init_def Let_def option.case o False if_False sum.case)
    have i2: "init f g filename deg (Some ks) inner outer =
        (case (case filename of None \<Rightarrow> Inr ?obj0
               | Some fileobj \<Rightarrow> read_sph_stream f g ?obj0 fileobj) of
           Inl (e, _) \<Rightarrow> Inl e
         | Inr obj2 \<Rightarrow>
            if coefs obj2 = None
            then Inl (AssertionError ''You must provide a filename or degree'')
            else Inr obj2)"
      by (simp only: init_def Let_def option.case False if_False sum.case)
    show ?thesis by (simp only: i1 i2 fin [OF k0])
  next
    case True
    show ?thesis
    proof (cases "allocate_coefs ?obj0")
      case (Inl e)
      have i1: "init f g filename deg (Some ks') inner outer = Inl (fst e)"
        by (simp only: init_def Let_def option.case o al Inl True simp_thms if_True map_sum.simps
            sum.case)
           (cases e; simp)
      have i2: "init f g filename deg (Some ks) inner outer = Inl (fst e)"
        by (simp only: init_def Let_def option.case Inl True simp_thms if_True sum.case)
           (cases e; simp)
      show ?thesis by (simp only: i1 i2 map_sum.simps id_apply)
    next
      case (Inr obj1)
      from allocate_coefs_knots_kept [OF Inr] have k1: "knots obj1 = ks" by simp
      have i1: "init f g filename deg (Some ks') inner outer =
          (case (case filename of None \<Rightarrow> Inr (?K obj1)
                 | Some fileobj \<Rightarrow> read_sph_stream f g (?K obj1) fileobj) of
             Inl (e, _) \<Rightarrow> Inl e
           | Inr obj2 \<Rightarrow>
              if coefs obj2 = None
              then Inl (AssertionError ''You must provide a filename or degree'')
              else Inr obj2)"
        by (simp only: init_def Let_def option.case o al Inr True simp_thms if_True map_sum.simps
            sum.case)
      have i2: "init f g filename deg (Some ks) inner outer =
          (case (case filename of None \<Rightarrow> Inr obj1
                 | Some fileobj \<Rightarrow> read_sph_stream f g obj1 fileobj) of
             Inl (e, _) \<Rightarrow> Inl e
           | Inr obj2 \<Rightarrow>
              if coefs obj2 = None
              then Inl (AssertionError ''You must provide a filename or degree'')
              else Inr obj2)"
        by (simp only: init_def Let_def option.case Inr True simp_thms if_True sum.case)
      show ?thesis by (simp only: i1 i2 fin [OF k1])
    qed
  qed
qed

text \<open>
  Claim C10. For a knots argument that is not \<open>None\<close>, whatever its values: an object
  the constructor returns has that sequence as its knots; with a degree of at least
  \<open>-1\<close> and no file the constructor returns, and the array is the array of zeros of
  shape \<open>(len(knots), 2, degree + 1, degree + 1)\<close>; and the outcome depends on the knots
  through their number only, since with another sequence of the same length the constructor
  raises the same error or returns the same object but for the knots.
\<close>

theorem init_accepts_any_knots:
  "(init f g filename deg (Some ks) inner outer = Inr obj \<longrightarrow> knots obj = ks) \<and>
   (- 1 \<le> d \<longrightarrow>
      init f g None (Some d) (Some ks) inner outer =
        Inr \<lparr>knots = ks, degree = Some d,
             coefs = Some (zeros (length ks) 2 (nat (d + 1)) (nat (d + 1))),
             inner_radius = inner, outer_radius = outer\<rparr>) \<and>
   (length ks' = length ks \<longrightarrow>
      init f g filename deg (Some ks') inner outer =
        map_sum id (\<lambda>o'. o'\<lparr>knots := ks'\<rparr>) (init f g filename deg (Some ks) inner outer))"
proof (intro conjI impI)
  assume "init f g filename deg (Some ks) inner outer = Inr obj"
  then show "knots obj = ks" by (rule init_knots_kept)
next
  assume "- 1 \<le> d"
  from init_degree_only [OF this, of f g "Some ks" inner outer]
  show "init f g None (Some d) (Some ks) inner outer =
        Inr \<lparr>knots = ks, degree = Some d,
             coefs = Some (zeros (length ks) 2 (nat (d + 1)) (nat (d + 1))),
             inner_radius = inner, outer_radius = outer\<rparr>"
    by simp
next
  assume "length ks' = length ks"
  then show "init f g filename deg (Some ks') inner outer =
        map_sum id (\<lambda>o'. o'\<lparr>knots := ks'\<rparr>) (init f g filename deg (Some ks) inner outer)"
    by (rule init_knots_length_only)
qed

text \<open>
  The theorem on three knots out of range and out of order, with and without a file, and on
  no knots at all.
\<close>

theorem init_accepts_any_knots_witness:
  "init example_float example_int (Some [''0 1 3 111'', ''0.5'', ''0.5'', ''0.5'']) None
       (Some [5, - 7, 5]) 3480 6346.691
     = Inr \<lparr>knots = [5, - 7, 5], degree = Some 0,
            coefs = Some [[[[1 / 2]], [[0]]], [[[1 / 2]], [[0]]], [[[1 / 2]], [[0]]]],
            inner_radius = 3480, outer_radius = 6346.691\<rparr> \<and>
   knots \<lparr>knots = [5, - 7, 5], degree = Some 0,
            coefs = Some [[[[1 / 2 :: rat]], [[0]]], [[[1 / 2]], [[0]]], [[[1 / 2]], [[0]]]],
            inner_radius = 3480, outer_radius = 6346.691\<rparr> = [5, - 7, 5] \<and>
   (- 1 :: int) \<le> 0 \<and>
   init example_float example_int None (Some 0) (Some []) 3480 6346.691
     = Inr \<lparr>knots = [], degree = Some 0,
            coefs = Some (zeros (length ([] :: real list)) 2 (nat (0 + 1)) (nat (0 + 1))),
            inner_radius = 3480, outer_radius = 6346.691\<rparr> \<and>
   length [1, 0, - 1 :: real] = length [5, - 7, 5 :: real] \<and>
   init example_float example_int (Some [''0 1 3 111'', ''0.5'', ''0.5'', ''0.5'']) None
       (Some [1, 0, - 1]) 3480 6346.691
     = map_sum id (\<lambda>o'. o'\<lparr>knots := [1, 0, - 1]\<rparr>)
         (init example_float example_int (Some [''0 1 3 111'', ''0.5'', ''0.5'', ''0.5'']) None
            (Some [5, - 7, 5]) 3480 6346.691)"
proof -
  have i: "init example_float example_int (Some [''0 1 3 111'', ''0.5'', ''0.5'', ''0.5'']) None
       (Some [5, - 7, 5]) 3480 6346.691
     = Inr \<lparr>knots = [5, - 7, 5], degree = Some 0,
            coefs = Some [[[[1 / 2]], [[0]]], [[[1 / 2]], [[0]]], [[[1 / 2]], [[0]]]],
            inner_radius = 3480, outer_radius = 6346.691\<rparr>" by code_simp
  have d: "(- 1 :: int) \<le> 0" by simp
  have l: "length [1, 0, - 1 :: real] = length [5, - 7, 5 :: real]" by simp
  note t1 = init_accepts_any_knots [THEN conjunct1, THEN mp, OF i]
  note t2 = init_accepts_any_knots [where f = example_float and g = example_int
      and ks = "[]" and inner = 3480 and outer = "6346.691",
      THEN conjunct2, THEN conjunct1, THEN mp, OF d]
  note t3 = init_accepts_any_knots [where f = example_float and g = example_int
      and filename = "Some [''0 1 3 111'', ''0.5'', ''0.5'', ''0.5'']" and deg = None
      and inner = 3480 and outer = "6346.691",
      THEN conjunct2, THEN conjunct2, THEN mp, OF l]
  show ?thesis by (intro conjI i t1 d t2 l t3)
qed

end
